theory Spec2Isabelle
  imports Main "HOL-Library.Log_Nat" "HOL-Library.Word"
begin

section \<open>Apertus: gate node and gateway sketches\<close>

text \<open>
  A shallow embedding of the two Arduino sketches of the repository: the gate node
  (\<^verbatim>\<open>Apertus_Gate.ino\<close>) and the gateway (\<^verbatim>\<open>Apertus_Gateway.ino\<close>).
  Hardware effects are explicit: a sketch function takes the node state and returns it
  updated, every write to a pin, every delay and every radio send is appended to a trace,
  and everything the sketch reads from the outside (pins, ADC, clock, radio frames, serial
  bytes, the outcome of a radio send) is an argument.
\<close>

subsection \<open>Characters and C strings\<close>

definition NUL :: char where "NUL = CHR 0x00"
definition LF :: char where "LF = CHR 0x0A"
definition CR :: char where "CR = CHR 0x0D"
definition quote :: char where \<open>quote = CHR ''"''\<close>
definition bslash :: char where "bslash = CHR 0x5C"

text \<open>The text a C function sees in a buffer: the bytes before the first NUL.\<close>

definition cstr :: "string \<Rightarrow> string" where
  "cstr buf = takeWhile (\<lambda>c. c \<noteq> NUL) buf"

fun lexcmp :: "string \<Rightarrow> string \<Rightarrow> int" where
  "lexcmp [] [] = 0"
| "lexcmp [] (b # bs) = - int (of_char b)"
| "lexcmp (a # as) [] = int (of_char a)"
| "lexcmp (a # as) (b # bs) =
     (if a = b then lexcmp as bs else int (of_char a) - int (of_char b))"

definition strcmp :: "string \<Rightarrow> string \<Rightarrow> int" where
  "strcmp a b = lexcmp (cstr a) (cstr b)"

subsection \<open>Single-precision arithmetic\<close>

text \<open>
  A \<^verbatim>\<open>float\<close> of the sketch is a rational number that single precision represents;
  every arithmetic operation computes the exact result and rounds it to the nearest such
  number, ties to the even significand (24 bits). The voltages of the sketch are far
  from the subnormal and the overflow range, which are left out.
\<close>

definition bexp :: "rat \<Rightarrow> int" where
  "bexp x = (let (n, d) = quotient_of x; e0 = bitlen n - bitlen d
             in if 2 powi e0 \<le> x then e0 else e0 - 1)"

definition rne :: "rat \<Rightarrow> int" where
  "rne m = (let f = \<lfloor>m\<rfloor>; r = m - of_int f
            in if r < 1 / 2 then f else if 1 / 2 < r then f + 1
               else if even f then f else f + 1)"

definition fl32 :: "rat \<Rightarrow> rat" where
  "fl32 x = (if x = 0 then 0
             else let u = 2 powi (bexp \<bar>x\<bar> - 23)
                  in sgn x * of_int (rne (\<bar>x\<bar> / u)) * u)"

definition is_float32 :: "rat \<Rightarrow> bool" where
  "is_float32 x = (fl32 x = x)"

definition fadd :: "rat \<Rightarrow> rat \<Rightarrow> rat" where "fadd a b = fl32 (a + b)"
definition fsub :: "rat \<Rightarrow> rat \<Rightarrow> rat" where "fsub a b = fl32 (a - b)"
definition fmul :: "rat \<Rightarrow> rat \<Rightarrow> rat" where "fmul a b = fl32 (a * b)"
definition fdiv :: "rat \<Rightarrow> rat \<Rightarrow> rat" where "fdiv a b = fl32 (a / b)"

text \<open>The conversion \<^verbatim>\<open>(int)\<close> of a float drops the fraction (towards zero).\<close>

definition int_of_float :: "rat \<Rightarrow> int" where
  "int_of_float y = (if 0 \<le> y then \<lfloor>y\<rfloor> else \<lceil>y\<rceil>)"

subsection \<open>Gate node: configuration\<close>

type_synonym pin = nat

definition PIN_ACT_OPEN :: pin where "PIN_ACT_OPEN = 3"
definition PIN_ACT_CLOSE :: pin where "PIN_ACT_CLOSE = 4"
definition PIN_ACT_STOP :: pin where "PIN_ACT_STOP = 5"
definition PIN_ACT_LATCH :: pin where "PIN_ACT_LATCH = 11"
definition PIN_ACT_UNLATCH :: pin where "PIN_ACT_UNLATCH = 12"
definition PIN_ACT_TIMER :: pin where "PIN_ACT_TIMER = 13"

definition PIN_LIMIT_OPEN :: pin where "PIN_LIMIT_OPEN = 6"
definition PIN_LIMIT_CLOSED :: pin where "PIN_LIMIT_CLOSED = 7"
definition PIN_PHOTOEYE :: pin where "PIN_PHOTOEYE = 8"

text \<open>The analog pins \<^verbatim>\<open>A0\<close>, \<^verbatim>\<open>A1\<close>, \<^verbatim>\<open>A2\<close> of the Nano are the pin numbers 14, 15, 16.\<close>

definition PIN_BATT_ADC :: pin where "PIN_BATT_ADC = 14"
definition PIN_SOLAR_ADC :: pin where "PIN_SOLAR_ADC = 15"
definition PIN_FREE_EXIT :: pin where "PIN_FREE_EXIT = 16"

definition RF_GATEWAY_ID :: nat where "RF_GATEWAY_ID = 10"
definition RF_NODE_ID :: nat where "RF_NODE_ID = 20"

definition TELEMETRY_INTERVAL_MS :: "32 word" where "TELEMETRY_INTERVAL_MS = 60 * 1000"

definition BATTERY_DIVIDER_FACTOR :: rat where "BATTERY_DIVIDER_FACTOR = fl32 (403 / 100)"
definition SOLAR_DIVIDER_FACTOR :: rat where "SOLAR_DIVIDER_FACTOR = fl32 (403 / 100)"
definition BATTERY_VOLTS_MIN :: rat where "BATTERY_VOLTS_MIN = fl32 (115 / 10)"
definition BATTERY_VOLTS_MAX :: rat where "BATTERY_VOLTS_MAX = fl32 (136 / 10)"

subsection \<open>Gate node: state, inputs and trace\<close>

datatype level = LOW | HIGH

datatype pin_mode = OUTPUT | INPUT_PULLUP

text \<open>The arguments of the \<^verbatim>\<open>snprintf\<close> call that renders a telemetry frame.\<close>

record telemetry =
  src :: nat
  gate_state :: string
  limit_open :: bool
  limit_closed :: bool
  photoeye_blocked :: bool
  free_exit :: bool
  battery_voltage :: rat
  battery_pct :: int
  solar_voltage :: rat
  charging :: bool
  rssi :: int
  radio_temp_c :: int
  uptime_s :: "32 word"

datatype packet = Text string | TelemetryJson telemetry

datatype gate_event =
    PinMode pin pin_mode
  | DigitalWrite pin level
  | Delay nat
  | RadioSend nat packet
  | SerialPrint string
  | SerialPrintln string

text \<open>What the sketch reads from the hardware at one moment.\<close>

record readings =
  digital_in :: "pin \<Rightarrow> level"
  analog_in :: "pin \<Rightarrow> int"
  rssi_in :: int
  temp_in :: int
  millis_in :: "32 word"

text \<open>
  The node state: the level last written to each pin with \<^verbatim>\<open>digitalWrite\<close>, the trace
  of effects, and the global \<^verbatim>\<open>lastTelemetryMs\<close>. Only the sketch's own writes are
  recorded; what the SPI peripheral does to the pins it shares (11 to 13 on this board) is
  outside the sketch.
\<close>

record gate_node =
  outputs :: "pin \<Rightarrow> level"
  trace :: "gate_event list"
  lastTelemetryMs :: "32 word"

definition emit :: "gate_event \<Rightarrow> gate_node \<Rightarrow> gate_node" where
  "emit e s = s\<lparr>trace := trace s @ [e]\<rparr>"

definition digitalWrite :: "pin \<Rightarrow> level \<Rightarrow> gate_node \<Rightarrow> gate_node" where
  "digitalWrite p v s = emit (DigitalWrite p v) (s\<lparr>outputs := (outputs s)(p := v)\<rparr>)"

definition delay :: "nat \<Rightarrow> gate_node \<Rightarrow> gate_node" where
  "delay ms s = emit (Delay ms) s"

subsection \<open>Gate node: helpers\<close>

definition readADCVoltage :: "readings \<Rightarrow> pin \<Rightarrow> rat \<Rightarrow> rat" where
  "readADCVoltage r p dividerFactor =
     (let raw = analog_in r p;
          vref = 5;
          vout = fmul (fdiv (fl32 (of_int raw)) 1023) vref
      in fmul vout dividerFactor)"

definition readBatteryVoltage :: "readings \<Rightarrow> rat" where
  "readBatteryVoltage r = readADCVoltage r PIN_BATT_ADC BATTERY_DIVIDER_FACTOR"

definition readSolarVoltage :: "readings \<Rightarrow> rat" where
  "readSolarVoltage r = readADCVoltage r PIN_SOLAR_ADC SOLAR_DIVIDER_FACTOR"

definition getUptimeSeconds :: "readings \<Rightarrow> 32 word" where
  "getUptimeSeconds r = millis_in r div 1000"

definition readActiveLow :: "readings \<Rightarrow> pin \<Rightarrow> bool" where
  "readActiveLow r p = (digital_in r p = LOW)"

definition pulsePin :: "pin \<Rightarrow> nat \<Rightarrow> gate_node \<Rightarrow> gate_node" where
  "pulsePin p ms s = digitalWrite p LOW (delay ms (digitalWrite p HIGH s))"

definition applyActuatorCommand :: "string \<Rightarrow> gate_node \<Rightarrow> gate_node" where
  "applyActuatorCommand cmd s =
     (if strcmp cmd ''OPEN'' = 0 then pulsePin PIN_ACT_OPEN 200 s
      else if strcmp cmd ''CLOSE'' = 0 then pulsePin PIN_ACT_CLOSE 200 s
      else if strcmp cmd ''STOP'' = 0 then pulsePin PIN_ACT_STOP 200 s
      else if strcmp cmd ''LATCH'' = 0 then pulsePin PIN_ACT_LATCH 200 s
      else if strcmp cmd ''UNLATCH'' = 0 then pulsePin PIN_ACT_UNLATCH 200 s
      else if strcmp cmd ''TIMER_CLOSE'' = 0 then pulsePin PIN_ACT_TIMER 200 s
      else s)"

definition batteryPctFromVoltage :: "rat \<Rightarrow> int" where
  "batteryPctFromVoltage v =
     (if v \<le> BATTERY_VOLTS_MIN then 0
      else if BATTERY_VOLTS_MAX \<le> v then 100
      else let pct = fdiv (fsub v BATTERY_VOLTS_MIN) (fsub BATTERY_VOLTS_MAX BATTERY_VOLTS_MIN)
           in int_of_float (fadd (fmul pct 100) (1 / 2)))"

text \<open>
  \<^verbatim>\<open>sendTelemetryToGateway\<close> in three parts: the choice of the \<^verbatim>\<open>gate_state\<close> text
  (the \<^verbatim>\<open>if\<close> chain over the two limit readings), the values handed to \<^verbatim>\<open>snprintf\<close>, and
  the radio send of the rendered frame to the gateway id.
\<close>

definition gate_state_of :: "bool \<Rightarrow> bool \<Rightarrow> string" where
  "gate_state_of limitOpen limitClosed =
     (if limitOpen \<and> \<not> limitClosed then ''open''
      else if limitClosed \<and> \<not> limitOpen then ''closed''
      else if \<not> limitOpen \<and> \<not> limitClosed then ''moving''
      else ''unknown'')"

definition snapshot :: "readings \<Rightarrow> telemetry" where
  "snapshot r =
     (let vbatt = readBatteryVoltage r;
          vsolar = readSolarVoltage r;
          chg = (fadd vbatt (fl32 (2 / 10)) < vsolar);
          limitOpen = readActiveLow r PIN_LIMIT_OPEN;
          limitClosed = readActiveLow r PIN_LIMIT_CLOSED;
          photoeyeBlocked = readActiveLow r PIN_PHOTOEYE;
          freeExit = readActiveLow r PIN_FREE_EXIT
      in \<lparr> src = RF_NODE_ID,
           gate_state = gate_state_of limitOpen limitClosed,
           limit_open = limitOpen, limit_closed = limitClosed,
           photoeye_blocked = photoeyeBlocked, free_exit = freeExit,
           battery_voltage = vbatt, battery_pct = batteryPctFromVoltage vbatt,
           solar_voltage = vsolar, charging = chg,
           rssi = rssi_in r, radio_temp_c = temp_in r,
           uptime_s = getUptimeSeconds r \<rparr>)"

definition sendTelemetryToGateway :: "readings \<Rightarrow> gate_node \<Rightarrow> gate_node" where
  "sendTelemetryToGateway r s = emit (RadioSend RF_GATEWAY_ID (TelemetryJson (snapshot r))) s"

subsection \<open>Decimal output\<close>

text \<open>\<^verbatim>\<open>Serial.print\<close> of an integer writes its decimal digits.\<close>

fun print_nat :: "nat \<Rightarrow> string" where
  "print_nat n = (if n < 10 then [char_of (48 + n)]
                  else print_nat (n div 10) @ [char_of (48 + n mod 10)])"

declare print_nat.simps [simp del]

definition print_int :: "int \<Rightarrow> string" where
  "print_int i = (if i < 0 then CHR ''-'' # print_nat (nat (- i)) else print_nat (nat i))"

subsection \<open>Gate node: setup and loop\<close>

definition gate_setup :: "bool \<Rightarrow> 32 word \<Rightarrow> readings \<Rightarrow> gate_node \<Rightarrow> gate_node" where
  "gate_setup init_ok now r s =
     (let s1 = digitalWrite PIN_ACT_OPEN LOW (emit (PinMode PIN_ACT_OPEN OUTPUT) s);
          s2 = digitalWrite PIN_ACT_CLOSE LOW (emit (PinMode PIN_ACT_CLOSE OUTPUT) s1);
          s3 = digitalWrite PIN_ACT_STOP LOW (emit (PinMode PIN_ACT_STOP OUTPUT) s2);
          s4 = digitalWrite PIN_ACT_LATCH LOW (emit (PinMode PIN_ACT_LATCH OUTPUT) s3);
          s5 = digitalWrite PIN_ACT_UNLATCH LOW (emit (PinMode PIN_ACT_UNLATCH OUTPUT) s4);
          s6 = digitalWrite PIN_ACT_TIMER LOW (emit (PinMode PIN_ACT_TIMER OUTPUT) s5);
          s7 = emit (PinMode PIN_LIMIT_OPEN INPUT_PULLUP) s6;
          s8 = emit (PinMode PIN_LIMIT_CLOSED INPUT_PULLUP) s7;
          s9 = emit (PinMode PIN_PHOTOEYE INPUT_PULLUP) s8;
          s10 = emit (PinMode PIN_FREE_EXIT INPUT_PULLUP) s9;
          s11 = delay 200 s10;
          s12 = (if \<not> init_ok then emit (SerialPrintln ''RFM69 init failed'') s11
                 else emit (SerialPrintln ''RFM69 initialized (Apertus Gate)'') s11);
          s13 = s12\<lparr>lastTelemetryMs := now\<rparr>
      in sendTelemetryToGateway r s13)"

text \<open>
  What one pass of \<^verbatim>\<open>loop\<close> reads: the received frame if \<^verbatim>\<open>receiveDone\<close> holds
  (\<^verbatim>\<open>SENDERID\<close> and the \<^verbatim>\<open>DATALEN\<close> bytes of \<^verbatim>\<open>DATA\<close>), the hardware as the telemetry after a
  command reads it, the clock in the interval test, the hardware as the periodic telemetry
  reads it, and the clock stored afterwards.
\<close>

record gate_input =
  rx :: "(nat \<times> string) option"
  rx_sensors :: readings
  now_check :: "32 word"
  tick_sensors :: readings
  now_after :: "32 word"

definition gate_receive :: "nat \<times> string \<Rightarrow> readings \<Rightarrow> gate_node \<Rightarrow> gate_node" where
  "gate_receive f r s =
     (let copyLen = min (length (snd f)) (128 - 1);
          cmd = cstr (take copyLen (snd f));
          s1 = emit (SerialPrint ''Radio recv from '') s;
          s2 = emit (SerialPrint (print_nat (fst f))) s1;
          s3 = emit (SerialPrint '': '') s2;
          s4 = emit (SerialPrintln cmd) s3;
          s5 = applyActuatorCommand cmd s4;
          s6 = emit (RadioSend RF_GATEWAY_ID (Text ''ACK'')) s5;
          s7 = delay 50 s6
      in sendTelemetryToGateway r s7)"

definition gate_loop :: "gate_input \<Rightarrow> gate_node \<Rightarrow> gate_node" where
  "gate_loop i s =
     (let s1 = (case rx i of None \<Rightarrow> s | Some f \<Rightarrow> gate_receive f (rx_sensors i) s);
          s2 = (if TELEMETRY_INTERVAL_MS \<le> now_check i - lastTelemetryMs s1
                then (sendTelemetryToGateway (tick_sensors i) s1)\<lparr>lastTelemetryMs := now_after i\<rparr>
                else s1)
      in delay 100 s2)"

definition gate_run ::
  "bool \<Rightarrow> 32 word \<Rightarrow> readings \<Rightarrow> gate_input list \<Rightarrow> gate_node \<Rightarrow> gate_node" where
  "gate_run init_ok now r is s = fold gate_loop is (gate_setup init_ok now r s)"

text \<open>
  A trace in which an actuator is asserted only inside a pulse: every write of \<^verbatim>\<open>HIGH\<close>
  is to one of the six actuator pins and is followed at once by a delay of 200 ms and the
  write of \<^verbatim>\<open>LOW\<close> to the same pin.
\<close>

definition actuator_pins :: "pin list" where
  "actuator_pins = [PIN_ACT_OPEN, PIN_ACT_CLOSE, PIN_ACT_STOP,
                    PIN_ACT_LATCH, PIN_ACT_UNLATCH, PIN_ACT_TIMER]"

definition pulse :: "pin \<Rightarrow> gate_event list" where
  "pulse p = [DigitalWrite p HIGH, Delay 200, DigitalWrite p LOW]"

fun pulses_only :: "gate_event list \<Rightarrow> bool" where
  "pulses_only [] = True"
| "pulses_only (DigitalWrite p HIGH # es) =
     (take 2 es = [Delay 200, DigitalWrite p LOW] \<and> p \<in> set actuator_pins \<and>
      pulses_only (drop 2 es))"
| "pulses_only (e # es) = pulses_only es"

definition all_deasserted :: "gate_node \<Rightarrow> bool" where
  "all_deasserted s =
     (outputs s PIN_ACT_OPEN = LOW \<and> outputs s PIN_ACT_CLOSE = LOW \<and>
      outputs s PIN_ACT_STOP = LOW \<and> outputs s PIN_ACT_LATCH = LOW \<and>
      outputs s PIN_ACT_UNLATCH = LOW \<and> outputs s PIN_ACT_TIMER = LOW)"

text \<open>The state-machine table of the design document, row by row.\<close>

fun gate_state_table :: "bool \<Rightarrow> bool \<Rightarrow> string" where
  "gate_state_table True False = ''open''"
| "gate_state_table False True = ''closed''"
| "gate_state_table False False = ''moving''"
| "gate_state_table True True = ''unknown''"

text \<open>
  The node at power-on: any pin levels, nothing done yet, and the static initialiser of
  \<^verbatim>\<open>lastTelemetryMs\<close>.
\<close>

definition power_on :: "(pin \<Rightarrow> level) \<Rightarrow> gate_node" where
  "power_on lv = \<lparr>outputs = lv, trace = [], lastTelemetryMs = 0\<rparr>"

text \<open>Sample inputs: an idle gate on a 12.3 V battery, and a frame that is no command.\<close>

definition sample_readings :: readings where
  "sample_readings = \<lparr>digital_in = (\<lambda>p. HIGH), analog_in = (\<lambda>p. 624), rssi_in = - 40,
     temp_in = 25, millis_in = 5000\<rparr>"

definition sample_gate_input :: gate_input where
  "sample_gate_input = \<lparr>rx = Some (10, ''HELLO''), rx_sensors = sample_readings,
     now_check = 5200, tick_sensors = sample_readings, now_after = 5200\<rparr>"

subsection \<open>Gateway: state and serial output\<close>

definition SERIAL_BUF_LEN :: nat where "SERIAL_BUF_LEN = 512"

text \<open>
  The gateway state: every byte written to \<^verbatim>\<open>Serial\<close>, every call of \<^verbatim>\<open>sendWithRetry\<close>
  (destination and bytes), every line handed to \<^verbatim>\<open>forwardSerialToRadio\<close>, and the first
  \<^verbatim>\<open>serialPos\<close> bytes of \<^verbatim>\<open>serialBuf\<close>.
\<close>

record bridge =
  serial_out :: string
  sent :: "(nat \<times> string) list"
  forwarded :: "string list"
  serialBuf :: string

definition bridge_init :: bridge where
  "bridge_init = \<lparr>serial_out = [], sent = [], forwarded = [], serialBuf = []\<rparr>"

definition serial_print :: "string \<Rightarrow> bridge \<Rightarrow> bridge" where
  "serial_print t b = b\<lparr>serial_out := serial_out b @ t\<rparr>"

definition serial_println :: "string \<Rightarrow> bridge \<Rightarrow> bridge" where
  "serial_println t b = b\<lparr>serial_out := serial_out b @ t @ [CR, LF]\<rparr>"

text \<open>
  The radio link is outside the sketch: \<open>link n\<close> is the outcome of the \<open>n\<close>-th call of
  \<^verbatim>\<open>sendWithRetry\<close>.
\<close>

definition sendWithRetry :: "(nat \<Rightarrow> bool) \<Rightarrow> nat \<Rightarrow> string \<Rightarrow> bridge \<Rightarrow> bool \<times> bridge" where
  "sendWithRetry link dest buf b = (link (length (sent b)), b\<lparr>sent := sent b @ [(dest, buf)]\<rparr>)"

subsection \<open>Gateway: C library functions\<close>

definition strncmp :: "string \<Rightarrow> string \<Rightarrow> nat \<Rightarrow> int" where
  "strncmp a b n = lexcmp (take n (cstr a)) (take n (cstr b))"

text \<open>\<^verbatim>\<open>strchr\<close>: the offset of the first occurrence, if there is one.\<close>

fun strchr :: "string \<Rightarrow> char \<Rightarrow> nat option" where
  "strchr [] c = None"
| "strchr (x # xs) c = (if x = c then Some 0 else map_option Suc (strchr xs c))"

definition isspace_c :: "char \<Rightarrow> bool" where
  "isspace_c c = (c = CHR '' '' \<or> (9 \<le> (of_char c :: nat) \<and> (of_char c :: nat) \<le> 13))"

definition isdigit_c :: "char \<Rightarrow> bool" where
  "isdigit_c c = (48 \<le> (of_char c :: nat) \<and> (of_char c :: nat) \<le> 57)"

fun atoi_digits :: "int \<Rightarrow> string \<Rightarrow> int" where
  "atoi_digits acc [] = acc"
| "atoi_digits acc (c # cs) =
     (if isdigit_c c then atoi_digits (acc * 10 + (of_char c - 48)) cs else acc)"

text \<open>
  \<^verbatim>\<open>atoi\<close>: white space, an optional sign, then digits up to the first other character; the
  \<^verbatim>\<open>int\<close> of the AVR has 16 bits.
\<close>

definition atoi :: "string \<Rightarrow> int" where
  "atoi s =
     (let t = dropWhile isspace_c s;
          v = (case t of [] \<Rightarrow> 0
               | c # cs \<Rightarrow> if c = CHR ''-'' then - atoi_digits 0 cs
                           else if c = CHR ''+'' then atoi_digits 0 cs
                           else atoi_digits 0 t)
      in sint (word_of_int v :: 16 word))"

subsection \<open>Gateway: serial to radio\<close>

text \<open>The length left by the loop that drops trailing newlines and carriage returns.\<close>

definition trim_len :: "string \<Rightarrow> nat" where
  "trim_len payload = length (dropWhile (\<lambda>c. c = LF \<or> c = CR) (rev payload))"

definition forwardSerialToRadio :: "(nat \<Rightarrow> bool) \<Rightarrow> string \<Rightarrow> bridge \<Rightarrow> bridge" where
  \<open>forwardSerialToRadio link buf b0 =
     (let line = cstr buf;
          b = b0\<lparr>forwarded := forwarded b0 @ [line]\<rparr>
      in if strncmp line ''TO:'' 3 \<noteq> 0 then
           serial_println ''"}''
             (serial_print line (serial_print ''{"err":"unknown_serial_cmd","line":"'' b))
         else
           let p = drop 3 line;
               dest = atoi p
           in case strchr p (CHR '':'') of
                None \<Rightarrow> serial_println ''{"err":"bad_format"}'' b
              | Some k \<Rightarrow>
                  let payload = drop (k + 1) p;
                      len = trim_len payload
                  in if len = 0 then serial_println ''{"err":"empty_payload"}'' b
                     else
                       let len' = (if 192 - 1 < len then 192 - 1 else len);
                           sendBuf = take len' payload;
                           r = sendWithRetry link (nat (dest mod 256)) sendBuf b
                       in if fst r then
                            serial_println ''"}''
                              (serial_print payload
                                (serial_print '',"payload":"''
                                  (serial_print (print_int dest)
                                    (serial_print ''{"sent_to":'' (snd r)))))
                          else
                            serial_println ''}''
                              (serial_print (print_int dest)
                                (serial_print ''{"sent_error_to":'' (snd r))))\<close>

subsection \<open>Gateway: radio to serial\<close>

definition emit_escaped :: "char \<Rightarrow> bridge \<Rightarrow> bridge" where
  "emit_escaped c b =
     serial_print [c] (if c = quote \<or> c = bslash then serial_print [bslash] b else b)"

text \<open>
  A received frame is \<^verbatim>\<open>SENDERID\<close>, the RSSI read for it, and the \<^verbatim>\<open>DATALEN\<close> bytes of
  \<^verbatim>\<open>DATA\<close>. The sketch bounds the copy by \<^verbatim>\<open>RH_RF69_MAX_MESSAGE_LEN\<close>, which neither the
  sketch nor the radio library it includes defines: it is the parameter \<open>max_len\<close>.
\<close>

definition bridge_receive :: "nat \<Rightarrow> nat \<times> int \<times> string \<Rightarrow> bridge \<Rightarrow> bridge" where
  \<open>bridge_receive max_len f b =
     (let sender = fst f;
          rssi_v = fst (snd f);
          n = min (length (snd (snd f))) max_len;
          payload = take n (snd (snd f));
          b1 = serial_print ''{"src":'' b;
          b2 = serial_print (print_int (int sender)) b1;
          b3 = serial_print '',"rssi":'' b2;
          b4 = serial_print (print_int rssi_v) b3;
          b5 = serial_print '',"payload":"'' b4;
          b6 = fold emit_escaped payload b5
      in serial_println ''"}'' b6)\<close>

subsection \<open>Gateway: setup and loop\<close>

definition marker :: string where
  \<open>marker = ''{"gateway":"apertus_ready"}''\<close>

definition bridge_setup :: "bool \<Rightarrow> bridge \<Rightarrow> bridge" where
  "bridge_setup init_ok b =
     (let b1 = (if \<not> init_ok then serial_println ''RFM69 init failed'' b
                else serial_println ''Apertus Gateway RFM69 initialized'' b)
      in serial_println marker b1)"

definition serial_byte :: "(nat \<Rightarrow> bool) \<Rightarrow> char \<Rightarrow> bridge \<Rightarrow> bridge" where
  "serial_byte link c b =
     (if c = CR then b
      else if c = LF then
        (let b1 = (if 0 < length (serialBuf b) then forwardSerialToRadio link (serialBuf b) b
                   else b)
         in b1\<lparr>serialBuf := []\<rparr>)
      else if length (serialBuf b) < SERIAL_BUF_LEN - 1 then b\<lparr>serialBuf := serialBuf b @ [c]\<rparr>
      else b\<lparr>serialBuf := []\<rparr>)"

text \<open>
  What one pass of \<^verbatim>\<open>loop\<close> reads: the received frame if \<^verbatim>\<open>receiveDone\<close> holds, and the
  bytes that \<^verbatim>\<open>Serial.read\<close> returns while \<^verbatim>\<open>Serial.available\<close> holds.
\<close>

record bridge_input =
  frame :: "(nat \<times> int \<times> string) option"
  serial_in :: string

text \<open>The closing \<^verbatim>\<open>delay(10)\<close> of the pass changes nothing in the gateway state.\<close>

definition bridge_loop :: "nat \<Rightarrow> (nat \<Rightarrow> bool) \<Rightarrow> bridge_input \<Rightarrow> bridge \<Rightarrow> bridge" where
  "bridge_loop max_len link i b =
     (let b1 = (case frame i of None \<Rightarrow> b | Some f \<Rightarrow> bridge_receive max_len f b)
      in fold (serial_byte link) (serial_in i) b1)"

definition bridge_run ::
  "nat \<Rightarrow> (nat \<Rightarrow> bool) \<Rightarrow> bool \<Rightarrow> bridge_input list \<Rightarrow> bridge" where
  "bridge_run max_len link init_ok is =
     fold (bridge_loop max_len link) is (bridge_setup init_ok bridge_init)"

subsection \<open>Gateway: reading the serial side\<close>

text \<open>
  The lines a reader takes from the bytes on the serial side, by the line discipline of
  the design document (one line is one record, ended by a newline, carriage returns
  dropped), which is also how the gateway reads its own input. Bytes after the last
  newline are not yet a line.
\<close>

fun split_lines :: "string \<Rightarrow> string \<Rightarrow> string list" where
  "split_lines acc [] = []"
| "split_lines acc (c # cs) =
     (if c = LF then rev acc # split_lines [] cs
      else if c = CR then split_lines acc cs
      else split_lines (c # acc) cs)"

definition serial_lines :: "string \<Rightarrow> string list" where
  "serial_lines t = split_lines [] t"

text \<open>
  The escaping the design document describes: a backslash before every quote and every
  backslash, every other byte as it is; and its inverse.
\<close>

fun escaped :: "string \<Rightarrow> string" where
  "escaped [] = []"
| "escaped (c # cs) =
     (if c = quote \<or> c = bslash then bslash # c # escaped cs else c # escaped cs)"

fun unescaped :: "string \<Rightarrow> string" where
  "unescaped [] = []"
| "unescaped [c] = [c]"
| "unescaped (c # d # cs) = (if c = bslash then d # unescaped cs else c # unescaped (d # cs))"

text \<open>A serial input line of 522 bytes: 511 bytes, one more, and then the text of a command.\<close>

definition oversized_line :: string where
  "oversized_line = replicate 511 (CHR ''A'') @ ''XTO:20:OPEN''"

text \<open>A serial input line of 512 bytes that has the form of a command.\<close>

definition full_line :: string where
  "full_line = ''TO:20:'' @ replicate 506 (CHR ''B'')"

text \<open>Serial output that is made of whole lines, none of them the readiness marker.\<close>

definition quiet :: "string \<Rightarrow> bool" where
  "quiet t = ((t = [] \<or> last t = LF) \<and> marker \<notin> set (serial_lines t))"

text \<open>
  A line read so far that cannot grow into the readiness marker: it begins like a radio
  reception record, or each of its quotes came with a backslash.
\<close>

definition unlike_marker :: "string \<Rightarrow> bool" where
  \<open>unlike_marker l = (take 3 l = ''{"s'' \<or> count_list l quote \<le> count_list l bslash)\<close>

text \<open>
  The linear interpolation of the design document, in exact arithmetic: the position of
  the voltage between 11.5 V and 13.6 V, in percent.
\<close>

definition battery_interpolation :: "rat \<Rightarrow> rat" where
  "battery_interpolation v = (v - 115 / 10) / (136 / 10 - 115 / 10) * 100"

section \<open>Single-precision arithmetic: properties\<close>

lemma rne_cases:
  "(m - of_int \<lfloor>m\<rfloor> < 1 / 2 \<and> rne m = \<lfloor>m\<rfloor>) \<or>
   (1 / 2 < m - of_int \<lfloor>m\<rfloor> \<and> rne m = \<lfloor>m\<rfloor> + 1) \<or>
   (m - of_int \<lfloor>m\<rfloor> = 1 / 2 \<and> (rne m = \<lfloor>m\<rfloor> \<or> rne m = \<lfloor>m\<rfloor> + 1))"
  by (auto simp: rne_def Let_def)

lemma rne_bounds: "of_int (rne m) \<le> m + 1 / 2" "m - 1 / 2 \<le> of_int (rne m)"
proof -
  from rne_cases [of m] show "of_int (rne m) \<le> m + 1 / 2"
    by (elim disjE conjE; simp; linarith)
  from rne_cases [of m] show "m - 1 / 2 \<le> of_int (rne m)"
    by (elim disjE conjE; simp; linarith)
qed

lemma rne_of_int: "rne (of_int k) = k"
  by (simp add: rne_def)

lemma rne_floor_cases: "rne m = \<lfloor>m\<rfloor> \<or> rne m = \<lfloor>m\<rfloor> + 1"
  by (auto simp: rne_def Let_def)

lemma rne_mono:
  assumes "m1 \<le> m2"
  shows "rne m1 \<le> rne m2"
proof (cases "\<lfloor>m1\<rfloor> = \<lfloor>m2\<rfloor>")
  case False
  with assms have "\<lfloor>m1\<rfloor> < \<lfloor>m2\<rfloor>" using floor_mono [OF assms] by linarith
  moreover have "rne m1 \<le> \<lfloor>m1\<rfloor> + 1" "\<lfloor>m2\<rfloor> \<le> rne m2"
    using rne_floor_cases [of m1] rne_floor_cases [of m2] by auto
  ultimately show ?thesis by linarith
next
  case True
  with assms have "m1 - of_int \<lfloor>m1\<rfloor> \<le> m2 - of_int \<lfloor>m2\<rfloor>" by simp
  with True show ?thesis
    by (auto simp: rne_def Let_def)
qed

lemma bexp_bounds:
  assumes "0 < x"
  shows "2 powi bexp x \<le> x" "x < 2 powi (bexp x + 1)"
proof -
  obtain n d where q: "quotient_of x = (n, d)" by (cases "quotient_of x")
  then have d: "0 < d" and x: "x = of_int n / of_int d"
    using quotient_of_denom_pos [OF q] quotient_of_div [OF q] by simp_all
  from assms d x have n: "0 < n"
    by (simp add: zero_less_divide_iff)
  let ?bn = "bitlen n" and ?bd = "bitlen d"
  from bitlen_bounds [OF n] have bn: "(2::rat) ^ nat (?bn - 1) \<le> of_int n" "of_int n < (2::rat) ^ nat ?bn"
    by (metis of_int_le_iff of_int_numeral of_int_power, metis of_int_less_iff of_int_numeral of_int_power)
  from bitlen_bounds [OF d] have bd: "(2::rat) ^ nat (?bd - 1) \<le> of_int d" "of_int d < (2::rat) ^ nat ?bd"
    by (metis of_int_le_iff of_int_numeral of_int_power, metis of_int_less_iff of_int_numeral of_int_power)
  have p1: "1 \<le> ?bn" "1 \<le> ?bd"
    using n d bitlen_eq_zero_iff [of n] bitlen_eq_zero_iff [of d] bitlen_nonneg [of n] bitlen_nonneg [of d]
    by linarith+
  have pn: "(2::rat) ^ nat (?bn - 1) = 2 powi (?bn - 1)" "(2::rat) ^ nat ?bn = 2 powi ?bn"
    "(2::rat) ^ nat (?bd - 1) = 2 powi (?bd - 1)" "(2::rat) ^ nat ?bd = 2 powi ?bd"
    using p1 by (simp_all add: power_int_def)
  have dpos: "(0::rat) < of_int d" using d by simp
  have lo: "2 powi (?bn - ?bd - 1) \<le> x"
  proof -
    have "2 powi (?bn - ?bd - 1) = (2::rat) powi (?bn - 1) / 2 powi ?bd"
      using power_int_diff [of "2::rat" "?bn - 1" ?bd] by (simp add: algebra_simps)
    also have "\<dots> \<le> of_int n / 2 powi ?bd"
      using bn(1) by (simp add: pn divide_right_mono)
    also have "\<dots> \<le> of_int n / of_int d"
      using bd(2) n dpos by (simp add: pn frac_le)
    finally show ?thesis by (simp add: x)
  qed
  have hi: "x < 2 powi (?bn - ?bd + 1)"
  proof -
    have "x = of_int n / of_int d" by (rule x)
    also have "\<dots> < 2 powi ?bn / of_int d"
      using bn(2) dpos by (simp add: pn divide_strict_right_mono)
    also have "\<dots> \<le> 2 powi ?bn / 2 powi (?bd - 1)"
      using bd(1) by (simp add: pn frac_le)
    also have "\<dots> = 2 powi (?bn - ?bd + 1)"
      using power_int_diff [of "2::rat" ?bn "?bd - 1"] by (simp add: algebra_simps)
    finally show ?thesis .
  qed
  show "2 powi bexp x \<le> x"
    using lo by (auto simp: bexp_def q Let_def algebra_simps)
  show "x < 2 powi (bexp x + 1)"
    using hi by (auto simp: bexp_def q Let_def algebra_simps not_le)
qed

lemma fl32_pos_eq:
  "0 < x \<Longrightarrow> fl32 x = of_int (rne (x / 2 powi (bexp x - 23))) * 2 powi (bexp x - 23)"
  by (simp add: fl32_def Let_def)

lemma ulp_scale:
  "(2::rat) powi e = 2 powi (e - 23) * 8388608"
  "(2::rat) powi (e + 1) = 2 powi (e - 23) * 16777216"
proof -
  have "(2::rat) powi e = 2 powi ((e - 23) + 23)" by simp
  also have "\<dots> = 2 powi (e - 23) * 2 powi 23"
    by (rule power_int_add) simp
  finally show "(2::rat) powi e = 2 powi (e - 23) * 8388608" by simp
  have "e + 1 = (e - 23) + 24" by simp
  then have "(2::rat) powi (e + 1) = 2 powi ((e - 23) + 24)" by (simp only:)
  also have "\<dots> = 2 powi (e - 23) * 2 powi 24"
    by (rule power_int_add) simp
  finally show "(2::rat) powi (e + 1) = 2 powi (e - 23) * 16777216" by simp
qed

lemma significand_range:
  assumes "0 < x"
  shows "8388608 \<le> x / 2 powi (bexp x - 23)" "x / 2 powi (bexp x - 23) < 16777216"
proof -
  let ?u = "(2::rat) powi (bexp x - 23)"
  have u: "0 < ?u" by simp
  from bexp_bounds [OF assms] ulp_scale [of "bexp x"]
  have "?u * 8388608 \<le> x" "x < ?u * 16777216"
    by linarith+
  then show "8388608 \<le> x / ?u" "x / ?u < 16777216"
    using u by (simp_all add: pos_le_divide_eq pos_divide_less_eq mult.commute)
qed

lemma rne_significand:
  assumes "0 < x"
  shows "8388608 \<le> rne (x / 2 powi (bexp x - 23))" "rne (x / 2 powi (bexp x - 23)) \<le> 16777216"
proof -
  let ?m = "x / 2 powi (bexp x - 23)"
  from significand_range [OF assms] have "of_int 8388608 \<le> ?m" "?m \<le> of_int 16777216"
    by simp_all
  from rne_mono [OF this(1)] rne_mono [OF this(2)]
  show "8388608 \<le> rne ?m" "rne ?m \<le> 16777216"
    by (simp_all only: rne_of_int)
qed

lemma fl32_binade:
  assumes "0 < x"
  shows "2 powi bexp x \<le> fl32 x" "fl32 x \<le> 2 powi (bexp x + 1)"
proof -
  let ?u = "(2::rat) powi (bexp x - 23)"
  let ?k = "rne (x / ?u)"
  have u: "0 \<le> ?u" by simp
  from rne_significand [OF assms] have "(8388608::rat) \<le> of_int ?k" "of_int ?k \<le> (16777216::rat)"
    by (metis of_int_le_iff of_int_numeral)+
  then have "8388608 * ?u \<le> of_int ?k * ?u" "of_int ?k * ?u \<le> 16777216 * ?u"
    using u by (auto intro: mult_right_mono)
  with ulp_scale [of "bexp x"] fl32_pos_eq [OF assms]
  show "2 powi bexp x \<le> fl32 x" "fl32 x \<le> 2 powi (bexp x + 1)"
    by linarith+
qed

lemma fl32_0: "fl32 0 = 0"
  by (simp add: fl32_def)

lemma fl32_pos:
  assumes "0 < x"
  shows "0 < fl32 x"
proof -
  have "(0::rat) < 2 powi bexp x" by simp
  with fl32_binade(1) [OF assms] show ?thesis by linarith
qed

lemma fl32_nonneg: "0 \<le> x \<Longrightarrow> 0 \<le> fl32 x"
  using fl32_pos [of x] by (cases "x = 0") (simp_all add: fl32_0 less_imp_le)

lemma bexp_mono:
  assumes "0 < x" "x \<le> y"
  shows "bexp x \<le> bexp y"
proof (rule ccontr)
  assume "\<not> bexp x \<le> bexp y"
  then have "bexp y + 1 \<le> bexp x" by simp
  then have "(2::rat) powi (bexp y + 1) \<le> 2 powi bexp x"
    by (intro power_int_increasing) simp_all
  moreover have "y < 2 powi (bexp y + 1)" "2 powi bexp x \<le> x"
    using bexp_bounds [of x] bexp_bounds [of y] assms by simp_all
  ultimately show False using assms(2) by linarith
qed

lemma fl32_mono_pos:
  assumes "0 < x" "x \<le> y"
  shows "fl32 x \<le> fl32 y"
proof (cases "bexp x = bexp y")
  case True
  let ?u = "(2::rat) powi (bexp y - 23)"
  have y: "0 < y" using assms by simp
  have "x / ?u \<le> y / ?u" using assms(2) by (simp add: divide_right_mono)
  then have "rne (x / ?u) \<le> rne (y / ?u)" by (rule rne_mono)
  then have "of_int (rne (x / ?u)) * ?u \<le> of_int (rne (y / ?u)) * ?u"
    by (intro mult_right_mono) simp_all
  then show ?thesis
    by (simp only: fl32_pos_eq [OF assms(1)] fl32_pos_eq [OF y] True)
next
  case False
  have y: "0 < y" using assms by simp
  from False bexp_mono [OF assms] have "bexp x + 1 \<le> bexp y" by simp
  then have "(2::rat) powi (bexp x + 1) \<le> 2 powi bexp y"
    by (intro power_int_increasing) simp_all
  with fl32_binade(2) [OF assms(1)] fl32_binade(1) [OF y] show ?thesis by linarith
qed

lemma fl32_mono: "0 \<le> x \<Longrightarrow> x \<le> y \<Longrightarrow> fl32 x \<le> fl32 y"
  using fl32_mono_pos [of x y] fl32_nonneg [of y] by (cases "x = 0") (simp_all add: fl32_0)

lemma fl32_error:
  assumes "0 < x"
  shows "x * (16777215 / 16777216) \<le> fl32 x" "fl32 x \<le> x * (16777217 / 16777216)"
proof -
  let ?u = "(2::rat) powi (bexp x - 23)"
  let ?k = "rne (x / ?u)"
  have u: "0 < ?u" by simp
  have xu: "x / ?u * ?u = x" using u by simp
  from rne_bounds [of "x / ?u"]
  have "of_int ?k * ?u \<le> (x / ?u + 1 / 2) * ?u" "(x / ?u - 1 / 2) * ?u \<le> of_int ?k * ?u"
    using u by (auto intro: mult_right_mono less_imp_le)
  then have b: "fl32 x \<le> x + ?u / 2" "x - ?u / 2 \<le> fl32 x"
    by (simp_all add: fl32_pos_eq [OF assms] algebra_simps xu)
  from bexp_bounds(1) [OF assms] ulp_scale(1) [of "bexp x"] have "?u * 8388608 \<le> x"
    by linarith
  with b show "x * (16777215 / 16777216) \<le> fl32 x" "fl32 x \<le> x * (16777217 / 16777216)"
    by linarith+
qed

section \<open>Battery percentage: properties\<close>

lemma battery_consts:
  "BATTERY_VOLTS_MIN = 23 / 2" "BATTERY_VOLTS_MAX = 7130317 / 524288"
  "fsub BATTERY_VOLTS_MAX BATTERY_VOLTS_MIN = 1101005 / 524288"
  by (code_simp, code_simp, code_simp)

lemma fl32_exact: "fl32 1 = 1" "fl32 100 = 100" "fl32 (201 / 2) = 201 / 2"
  "fl32 (1101005 / 524288) = 1101005 / 524288"
  by (code_simp, code_simp, code_simp, code_simp)

lemma int_of_float_nonneg: "0 \<le> y \<Longrightarrow> int_of_float y = \<lfloor>y\<rfloor>"
  by (simp add: int_of_float_def)

text \<open>The value before the conversion to int, in the interpolation branch.\<close>

lemma pct_mid:
  assumes "23 / 2 < v" "v < 7130317 / 524288"
  shows "batteryPctFromVoltage v =
     \<lfloor>fl32 (fl32 (fl32 (fl32 (v - 23 / 2) / (1101005 / 524288)) * 100) + 1 / 2)\<rfloor>"
proof -
  have a: "0 < v - 23 / 2" using assms by simp
  have "0 \<le> fl32 (fl32 (fl32 (fl32 (v - 23 / 2) / (1101005 / 524288)) * 100) + 1 / 2)"
    using fl32_nonneg [of "v - 23 / 2"] a
    by (intro fl32_nonneg add_nonneg_nonneg mult_nonneg_nonneg divide_nonneg_nonneg) simp_all
  then show ?thesis
    using assms
    by (simp add: batteryPctFromVoltage_def battery_consts(1,2) Let_def fadd_def fsub_def
        fmul_def fdiv_def fl32_exact int_of_float_nonneg)
qed

lemma pct_low: "v \<le> 23 / 2 \<Longrightarrow> batteryPctFromVoltage v = 0"
  by (simp add: batteryPctFromVoltage_def battery_consts(1))

lemma pct_high: "7130317 / 524288 \<le> v \<Longrightarrow> batteryPctFromVoltage v = 100"
  by (simp add: batteryPctFromVoltage_def battery_consts(1,2))

lemma float_above_high:
  assumes "is_float32 v" "136 / 10 \<le> v"
  shows "7130317 / 524288 \<le> v"
proof -
  have "fl32 (136 / 10) \<le> fl32 v" using assms(2) by (intro fl32_mono) simp_all
  moreover have "fl32 (136 / 10) = 7130317 / 524288" by code_simp
  ultimately show ?thesis using assms(1) by (simp add: is_float32_def)
qed

lemma pct_mid_range:
  assumes "23 / 2 < v" "v < 7130317 / 524288"
  shows "0 \<le> batteryPctFromVoltage v" "batteryPctFromVoltage v \<le> 100"
proof -
  let ?a = "fl32 (v - 23 / 2)"
  let ?p = "fl32 (?a / (1101005 / 524288))"
  let ?m = "fl32 (?p * 100)"
  let ?y = "fl32 (?m + 1 / 2)"
  have a0: "0 \<le> ?a" by (rule fl32_nonneg) (use assms in simp)
  have p0: "0 \<le> ?p" by (rule fl32_nonneg) (use a0 in simp)
  have m0: "0 \<le> ?m" by (rule fl32_nonneg) (use p0 in simp)
  have y0: "0 \<le> ?y" by (rule fl32_nonneg) (use m0 in simp)
  have "?a \<le> fl32 (1101005 / 524288)" by (rule fl32_mono) (use assms in simp_all)
  then have a1: "?a \<le> 1101005 / 524288" by (simp only: fl32_exact)
  have "?p \<le> fl32 1" by (rule fl32_mono) (use a0 a1 in simp_all)
  then have p1: "?p \<le> 1" by (simp only: fl32_exact)
  have "?m \<le> fl32 100" by (rule fl32_mono) (use p0 p1 in simp_all)
  then have m1: "?m \<le> 100" by (simp only: fl32_exact)
  have "?y \<le> fl32 (201 / 2)" by (rule fl32_mono) (use m0 m1 in simp_all)
  then have y1: "?y \<le> 201 / 2" by (simp only: fl32_exact)
  show "0 \<le> batteryPctFromVoltage v" using y0 by (simp only: pct_mid [OF assms] zero_le_floor)
  have "\<lfloor>?y\<rfloor> \<le> \<lfloor>201 / 2 :: rat\<rfloor>" using y1 by (rule floor_mono)
  moreover have "\<lfloor>201 / 2 :: rat\<rfloor> = 100" by code_simp
  ultimately show "batteryPctFromVoltage v \<le> 100" by (simp only: pct_mid [OF assms])
qed

lemma pct_range: "0 \<le> batteryPctFromVoltage v \<and> batteryPctFromVoltage v \<le> 100"
proof -
  consider "v \<le> 23 / 2" | "7130317 / 524288 \<le> v" | "23 / 2 < v" "v < 7130317 / 524288"
    by linarith
  then show ?thesis
  proof cases
    case 1
    then show ?thesis by (simp add: pct_low)
  next
    case 2
    then show ?thesis by (simp add: pct_high)
  next
    case 3
    then show ?thesis using pct_mid_range [of v] by blast
  qed
qed

lemma pct_mid_mono:
  assumes "23 / 2 < v" "v \<le> w" "w < 7130317 / 524288"
  shows "batteryPctFromVoltage v \<le> batteryPctFromVoltage w"
proof -
  let ?a = "\<lambda>z. fl32 (z - 23 / 2)"
  let ?p = "\<lambda>z. fl32 (?a z / (1101005 / 524288))"
  let ?m = "\<lambda>z. fl32 (?p z * 100)"
  let ?y = "\<lambda>z. fl32 (?m z + 1 / 2)"
  have vw: "23 / 2 < w" "v < 7130317 / 524288" using assms by simp_all
  have a0: "0 \<le> ?a v" by (rule fl32_nonneg) (use assms in simp)
  have a: "?a v \<le> ?a w" by (rule fl32_mono) (use assms in simp_all)
  have p0: "0 \<le> ?p v" by (rule fl32_nonneg) (use a0 in simp)
  have p: "?p v \<le> ?p w" by (rule fl32_mono) (use a a0 in \<open>simp_all add: divide_right_mono\<close>)
  have m0: "0 \<le> ?m v" by (rule fl32_nonneg) (use p0 in simp)
  have m: "?m v \<le> ?m w" by (rule fl32_mono) (use p p0 in simp_all)
  have "?y v \<le> ?y w" by (rule fl32_mono) (use m m0 in simp_all)
  then show ?thesis
    unfolding pct_mid [OF assms(1) vw(2)] pct_mid [OF vw(1) assms(3)] by (rule floor_mono)
qed

lemma pct_mono:
  assumes "v \<le> w"
  shows "batteryPctFromVoltage v \<le> batteryPctFromVoltage w"
proof -
  consider "v \<le> 23 / 2" | "7130317 / 524288 \<le> w" | "23 / 2 < v" "w < 7130317 / 524288"
    by linarith
  then show ?thesis
  proof cases
    case 1
    then show ?thesis using pct_range [of w] by (simp add: pct_low)
  next
    case 2
    then show ?thesis using pct_range [of v] by (simp add: pct_high)
  next
    case 3
    then show ?thesis using assms by (intro pct_mid_mono)
  qed
qed

lemma pct_mid_close:
  assumes "115 / 10 < v" "v < 136 / 10"
  shows "round ((v - 115 / 10) / (136 / 10 - 115 / 10) * 100 - 1 / 10000) \<le> batteryPctFromVoltage v"
    "batteryPctFromVoltage v \<le> round ((v - 115 / 10) / (136 / 10 - 115 / 10) * 100 + 1 / 10000)"
proof -
  define A where "A = v - 23 / 2"
  define a where "a = fl32 A"
  define q where "q = a / (1101005 / 524288)"
  define p where "p = fl32 q"
  define m where "m = fl32 (p * 100)"
  define y where "y = fl32 (m + 1 / 2)"
  define x where "x = (v - 115 / 10) / (136 / 10 - 115 / 10) * 100"
  have A: "0 < A" "A < 21 / 10" using assms by (simp_all add: A_def)
  have x: "x = A * (1000 / 21)" by (simp add: x_def A_def)
  have a: "A * (16777215 / 16777216) \<le> a" "a \<le> A * (16777217 / 16777216)" "0 < a"
    unfolding a_def using fl32_error [OF A(1)] fl32_pos [OF A(1)] by simp_all
  have q: "q = a * (524288 / 1101005)" "0 < q" using a(3) by (simp_all add: q_def)
  have p: "q * (16777215 / 16777216) \<le> p" "p \<le> q * (16777217 / 16777216)" "0 < p"
    unfolding p_def using fl32_error [OF q(2)] fl32_pos [OF q(2)] by simp_all
  have p100: "0 < p * 100" using p(3) by simp
  have m: "p * 100 * (16777215 / 16777216) \<le> m" "m \<le> p * 100 * (16777217 / 16777216)" "0 < m"
    unfolding m_def using fl32_error [OF p100] fl32_pos [OF p100] by simp_all
  have s: "0 < m + 1 / 2" using m(3) by simp
  have y: "(m + 1 / 2) * (16777215 / 16777216) \<le> y" "y \<le> (m + 1 / 2) * (16777217 / 16777216)"
    unfolding y_def using fl32_error [OF s] by simp_all
  have q_lo: "A * (16777215 / 16777216) * (524288 / 1101005) \<le> q"
    using a(1) q(1) by linarith
  have p_lo: "A * (16777215 / 16777216) * (524288 / 1101005) * (16777215 / 16777216) \<le> p"
    using q_lo p(1) by linarith
  have m_lo: "A * (16777215 / 16777216) * (524288 / 1101005) * (16777215 / 16777216) * 100 *
      (16777215 / 16777216) \<le> m"
    using p_lo m(1) by linarith
  have lo: "x - 1 / 10000 + 1 / 2 \<le> y"
    using A x m_lo y(1) by simp
  have q_hi: "q \<le> A * (16777217 / 16777216) * (524288 / 1101005)"
    using a(2) q(1) by linarith
  have p_hi: "p \<le> A * (16777217 / 16777216) * (524288 / 1101005) * (16777217 / 16777216)"
    using q_hi p(2) by linarith
  have m_hi: "m \<le> A * (16777217 / 16777216) * (524288 / 1101005) * (16777217 / 16777216) * 100 *
      (16777217 / 16777216)"
    using p_hi m(2) by linarith
  have hi: "y \<le> x + 1 / 10000 + 1 / 2"
    using A x m_hi y(2) by simp
  have v: "23 / 2 < v" "v < 7130317 / 524288" using assms by simp_all
  have e: "batteryPctFromVoltage v = \<lfloor>y\<rfloor>"
    unfolding pct_mid [OF v] y_def m_def p_def q_def a_def A_def ..
  from floor_mono [OF lo] floor_mono [OF hi]
  show "round ((v - 115 / 10) / (136 / 10 - 115 / 10) * 100 - 1 / 10000) \<le> batteryPctFromVoltage v"
    "batteryPctFromVoltage v \<le> round ((v - 115 / 10) / (136 / 10 - 115 / 10) * 100 + 1 / 10000)"
    unfolding e round_def x_def by simp_all
qed

lemma pct_1255: "batteryPctFromVoltage (fl32 (1255 / 100)) = 50"
  by code_simp

subsection \<open>Claims about the battery percentage\<close>

text \<open>
  C2 as stated fails between the thresholds, where the sketch computes in single
  precision: the quotient is taken by the rounded difference of the rounded constants,
  and each operation rounds again. The voltage below (13.2325000762939453125) is a
  single-precision number between the thresholds; its exact interpolation is a little
  above 82.5, so it rounds to 83, and the sketch returns 82.
\<close>

theorem batteryPct_rounding_counterexample:
  "is_float32 (6937641 / 524288) \<and>
   (115 / 10 :: rat) < 6937641 / 524288 \<and> (6937641 / 524288 :: rat) < 136 / 10 \<and>
   batteryPctFromVoltage (6937641 / 524288) = 82 \<and>
   round (battery_interpolation (6937641 / 524288)) = 83 \<and>
   \<bar>battery_interpolation (6937641 / 524288) - 83\<bar> < 1 / 2"
  by code_simp

text \<open>
  C2, as amended. \<^verbatim>\<open>batteryPctFromVoltage\<close> returns 0 for every voltage at or below
  11.5 V and 100 for every single-precision voltage at or above 13.6 V. Between the
  thresholds its result lies between the exact interpolation less 0.0001, rounded to the
  nearest integer, and the exact interpolation plus 0.0001, rounded to the nearest
  integer: it is the rounded interpolation unless the interpolation is within 0.0001 of
  a half. The result is between 0 and 100 and does not decrease when the voltage grows.
  For the single-precision number nearest to 12.55 it is 50.
\<close>

theorem batteryPctFromVoltage_clamped_monotone:
  "(v \<le> 115 / 10 \<longrightarrow> batteryPctFromVoltage v = 0) \<and>
   (is_float32 v \<and> 136 / 10 \<le> v \<longrightarrow> batteryPctFromVoltage v = 100) \<and>
   (115 / 10 < v \<and> v < 136 / 10 \<longrightarrow>
      round (battery_interpolation v - 1 / 10000) \<le> batteryPctFromVoltage v \<and>
      batteryPctFromVoltage v \<le> round (battery_interpolation v + 1 / 10000)) \<and>
   (v \<le> w \<longrightarrow> batteryPctFromVoltage v \<le> batteryPctFromVoltage w) \<and>
   0 \<le> batteryPctFromVoltage v \<and> batteryPctFromVoltage v \<le> 100 \<and>
   batteryPctFromVoltage (fl32 (1255 / 100)) = 50"
proof -
  have "batteryPctFromVoltage v = 0" if "v \<le> 115 / 10"
    using that by (intro pct_low) simp
  moreover have "batteryPctFromVoltage v = 100" if "is_float32 v \<and> 136 / 10 \<le> v"
    using that float_above_high [of v] by (intro pct_high) simp
  moreover have "round (battery_interpolation v - 1 / 10000) \<le> batteryPctFromVoltage v \<and>
      batteryPctFromVoltage v \<le> round (battery_interpolation v + 1 / 10000)"
    if "115 / 10 < v \<and> v < 136 / 10"
    unfolding battery_interpolation_def using that pct_mid_close [of v] by blast
  moreover have "batteryPctFromVoltage v \<le> batteryPctFromVoltage w" if "v \<le> w"
    using that by (rule pct_mono)
  ultimately show ?thesis
    using pct_range [of v] pct_1255 by blast
qed

theorem batteryPctFromVoltage_clamped_monotone_witness:
  "((11 :: rat) \<le> 115 / 10 \<and> batteryPctFromVoltage 11 = 0) \<and>
   (is_float32 14 \<and> (136 / 10 :: rat) \<le> 14 \<and> batteryPctFromVoltage 14 = 100) \<and>
   ((115 / 10 :: rat) < 6579815 / 524288 \<and> (6579815 / 524288 :: rat) < 136 / 10 \<and>
    round (battery_interpolation (6579815 / 524288) - 1 / 10000) \<le>
      batteryPctFromVoltage (6579815 / 524288) \<and>
    batteryPctFromVoltage (6579815 / 524288) \<le>
      round (battery_interpolation (6579815 / 524288) + 1 / 10000)) \<and>
   ((6579815 / 524288 :: rat) \<le> 13 \<and>
    batteryPctFromVoltage (6579815 / 524288) \<le> batteryPctFromVoltage 13)"
proof -
  have h: "(11 :: rat) \<le> 115 / 10" "is_float32 14" "(136 / 10 :: rat) \<le> 14"
    "(115 / 10 :: rat) < 6579815 / 524288" "(6579815 / 524288 :: rat) < 136 / 10"
    "(6579815 / 524288 :: rat) \<le> 13"
    by (simp, code_simp, simp, simp, simp, simp)
  from batteryPctFromVoltage_clamped_monotone [of 11 11]
    batteryPctFromVoltage_clamped_monotone [of 14 14]
    batteryPctFromVoltage_clamped_monotone [of "6579815 / 524288" 13] h
  show ?thesis by blast
qed

section \<open>Gate node: properties\<close>

lemma of_char_eq_0_iff: "(of_char c :: nat) = 0 \<longleftrightarrow> c = NUL"
proof -
  have "(of_char c :: nat) = of_char NUL \<longleftrightarrow> c = NUL"
    by (rule of_char_eq_iff)
  then show ?thesis by (simp add: NUL_def)
qed

lemma lexcmp_eq_0_iff:
  "NUL \<notin> set a \<Longrightarrow> NUL \<notin> set b \<Longrightarrow> lexcmp a b = 0 \<longleftrightarrow> a = b"
proof (induction a b rule: lexcmp.induct)
  case 1
  then show ?case by simp
next
  case (2 b bs)
  then show ?case by (auto simp: of_char_eq_0_iff)
next
  case (3 a as)
  then show ?case by (auto simp: of_char_eq_0_iff)
next
  case (4 a as b bs)
  then show ?case by (auto simp: of_char_eq_iff)
qed

lemma NUL_notin_cstr: "NUL \<notin> set (cstr buf)"
  by (auto simp: cstr_def dest: set_takeWhileD)


lemma cstr_idem: "cstr (cstr buf) = cstr buf"
  by (simp add: cstr_def)


lemma trace_emit: "trace (emit e s) = trace s @ [e]"
  by (simp add: emit_def)

lemma outputs_emit: "outputs (emit e s) = outputs s"
  by (simp add: emit_def)

lemma last_emit: "lastTelemetryMs (emit e s) = lastTelemetryMs s"
  by (simp add: emit_def)

lemma trace_digitalWrite: "trace (digitalWrite p v s) = trace s @ [DigitalWrite p v]"
  by (simp add: digitalWrite_def emit_def)

lemma outputs_digitalWrite: "outputs (digitalWrite p v s) = (outputs s)(p := v)"
  by (simp add: digitalWrite_def emit_def)

lemma trace_delay: "trace (delay ms s) = trace s @ [Delay ms]"
  by (simp add: delay_def emit_def)

lemma outputs_delay: "outputs (delay ms s) = outputs s"
  by (simp add: delay_def emit_def)

lemma trace_pulsePin:
  "trace (pulsePin p ms s) = trace s @ [DigitalWrite p HIGH, Delay ms, DigitalWrite p LOW]"
  by (simp add: pulsePin_def trace_digitalWrite trace_delay)

lemma outputs_pulsePin: "outputs (pulsePin p ms s) = (outputs s)(p := LOW)"
  by (simp add: pulsePin_def outputs_digitalWrite outputs_delay)

lemma last_pulsePin: "lastTelemetryMs (pulsePin p ms s) = lastTelemetryMs s"
  by (simp add: pulsePin_def digitalWrite_def delay_def emit_def)


lemma applyActuatorCommand_cases:
  "applyActuatorCommand cmd s = s \<or>
   (\<exists>p. p \<in> set actuator_pins \<and> applyActuatorCommand cmd s = pulsePin p 200 s)"
proof -
  have "applyActuatorCommand cmd s \<in> insert s ((\<lambda>p. pulsePin p 200 s) ` set actuator_pins)"
    unfolding applyActuatorCommand_def actuator_pins_def by simp
  then show ?thesis by auto
qed

lemma applyActuatorCommand_act:
  "\<exists>act. trace (applyActuatorCommand cmd s) = trace s @ act \<and>
         (act = [] \<or> (\<exists>p. p \<in> set actuator_pins \<and> act = pulse p))"
  using applyActuatorCommand_cases [of cmd s]
proof
  assume "applyActuatorCommand cmd s = s"
  then have "trace (applyActuatorCommand cmd s) = trace s @ []" by simp
  then show ?thesis by blast
next
  assume "\<exists>p. p \<in> set actuator_pins \<and> applyActuatorCommand cmd s = pulsePin p 200 s"
  then obtain p where p: "p \<in> set actuator_pins" "applyActuatorCommand cmd s = pulsePin p 200 s"
    by blast
  then have "trace (applyActuatorCommand cmd s) = trace s @ pulse p"
    by (simp add: trace_pulsePin pulse_def)
  with p(1) show ?thesis by blast
qed

lemma low_pulsePin: "outputs s q = LOW \<Longrightarrow> outputs (pulsePin p ms s) q = LOW"
  by (simp add: outputs_pulsePin)

lemma all_deasserted_pulsePin: "all_deasserted s \<Longrightarrow> all_deasserted (pulsePin p ms s)"
  unfolding all_deasserted_def by (blast intro: low_pulsePin)

lemma all_deasserted_apply: "all_deasserted s \<Longrightarrow> all_deasserted (applyActuatorCommand cmd s)"
proof -
  assume d: "all_deasserted s"
  from applyActuatorCommand_cases [of cmd s] show ?thesis
  proof
    assume "applyActuatorCommand cmd s = s"
    with d show ?thesis by simp
  next
    assume "\<exists>p. p \<in> set actuator_pins \<and> applyActuatorCommand cmd s = pulsePin p 200 s"
    then obtain p where "applyActuatorCommand cmd s = pulsePin p 200 s" by blast
    with d show ?thesis by (simp add: all_deasserted_pulsePin)
  qed
qed

lemma all_deasserted_emit: "all_deasserted (emit e s) = all_deasserted s"
  by (simp add: all_deasserted_def outputs_emit)

lemma all_deasserted_delay: "all_deasserted (delay ms s) = all_deasserted s"
  by (simp add: all_deasserted_def outputs_delay)

lemma all_deasserted_send: "all_deasserted (sendTelemetryToGateway r s) = all_deasserted s"
  by (simp add: sendTelemetryToGateway_def all_deasserted_emit)

lemma trace_send:
  "trace (sendTelemetryToGateway r s) =
     trace s @ [RadioSend RF_GATEWAY_ID (TelemetryJson (snapshot r))]"
  by (simp add: sendTelemetryToGateway_def trace_emit)

lemma last_send: "lastTelemetryMs (sendTelemetryToGateway r s) = lastTelemetryMs s"
  by (simp add: sendTelemetryToGateway_def last_emit)

lemma trace_gate_receive:
  "\<exists>act. trace (gate_receive f r s) = trace s @
       [SerialPrint ''Radio recv from '', SerialPrint (print_nat (fst f)), SerialPrint '': '',
        SerialPrintln (cstr (take (min (length (snd f)) 127) (snd f)))] @ act @
       [RadioSend RF_GATEWAY_ID (Text ''ACK''), Delay 50,
        RadioSend RF_GATEWAY_ID (TelemetryJson (snapshot r))] \<and>
     (act = [] \<or> (\<exists>p. p \<in> set actuator_pins \<and> act = pulse p))"
proof -
  let ?cmd = "cstr (take (min (length (snd f)) 127) (snd f))"
  let ?s4 = "emit (SerialPrintln ?cmd) (emit (SerialPrint '': '')
              (emit (SerialPrint (print_nat (fst f))) (emit (SerialPrint ''Radio recv from '') s)))"
  obtain act where act: "trace (applyActuatorCommand ?cmd ?s4) = trace ?s4 @ act"
    "act = [] \<or> (\<exists>p. p \<in> set actuator_pins \<and> act = pulse p)"
    using applyActuatorCommand_act [of ?cmd ?s4] by blast
  have "trace (gate_receive f r s) = trace (applyActuatorCommand ?cmd ?s4) @
       [RadioSend RF_GATEWAY_ID (Text ''ACK''), Delay 50,
        RadioSend RF_GATEWAY_ID (TelemetryJson (snapshot r))]"
    by (simp add: gate_receive_def Let_def trace_send trace_delay trace_emit)
  with act show ?thesis by (simp add: trace_emit)
qed

lemma all_deasserted_gate_receive:
  "all_deasserted s \<Longrightarrow> all_deasserted (gate_receive f r s)"
  by (simp add: gate_receive_def Let_def all_deasserted_send all_deasserted_delay
      all_deasserted_emit all_deasserted_apply)

lemma pulses_only_append:
  "pulses_only a \<Longrightarrow> pulses_only b \<Longrightarrow> pulses_only (a @ b)"
proof (induction a rule: pulses_only.induct)
  case 1
  then show ?case by simp
next
  case (2 p es)
  from "2.prems"(1) obtain es' where es: "es = Delay 200 # DigitalWrite p LOW # es'"
    by (cases es; simp; cases "tl es"; simp)
  with 2 show ?case by simp
qed simp_all

lemma pulses_only_pulse: "p \<in> set actuator_pins \<Longrightarrow> pulses_only (pulse p)"
  by (simp add: pulse_def)

lemma pulses_only_gate_receive:
  "\<exists>inc. trace (gate_receive f r s) = trace s @ inc \<and> pulses_only inc"
proof -
  obtain act where act: "trace (gate_receive f r s) = trace s @
       [SerialPrint ''Radio recv from '', SerialPrint (print_nat (fst f)), SerialPrint '': '',
        SerialPrintln (cstr (take (min (length (snd f)) 127) (snd f)))] @ act @
       [RadioSend RF_GATEWAY_ID (Text ''ACK''), Delay 50,
        RadioSend RF_GATEWAY_ID (TelemetryJson (snapshot r))]"
     "act = [] \<or> (\<exists>p. p \<in> set actuator_pins \<and> act = pulse p)"
    using trace_gate_receive [of f r s] by blast
  from act(2) have "pulses_only act" by (auto simp: pulses_only_pulse)
  then have "pulses_only (act @ [RadioSend RF_GATEWAY_ID (Text ''ACK''), Delay 50,
        RadioSend RF_GATEWAY_ID (TelemetryJson (snapshot r))])"
    by (rule pulses_only_append) simp
  then have "pulses_only ([SerialPrint ''Radio recv from '', SerialPrint (print_nat (fst f)),
        SerialPrint '': '',
        SerialPrintln (cstr (take (min (length (snd f)) 127) (snd f)))] @ act @
       [RadioSend RF_GATEWAY_ID (Text ''ACK''), Delay 50,
        RadioSend RF_GATEWAY_ID (TelemetryJson (snapshot r))])"
    by simp
  with act(1) show ?thesis by blast
qed

lemma pulses_only_gate_loop:
  "\<exists>inc. trace (gate_loop i s) = trace s @ inc \<and> pulses_only inc"
proof -
  let ?s1 = "case rx i of None \<Rightarrow> s | Some f \<Rightarrow> gate_receive f (rx_sensors i) s"
  obtain a where a: "trace ?s1 = trace s @ a" "pulses_only a"
  proof (cases "rx i")
    case None
    then have "trace ?s1 = trace s @ []" "pulses_only []" by simp_all
    then show ?thesis using that by blast
  next
    case (Some f)
    then show ?thesis using pulses_only_gate_receive [of f "rx_sensors i" s] that by auto
  qed
  let ?s2 = "if TELEMETRY_INTERVAL_MS \<le> now_check i - lastTelemetryMs ?s1
             then (sendTelemetryToGateway (tick_sensors i) ?s1)\<lparr>lastTelemetryMs := now_after i\<rparr>
             else ?s1"
  obtain b where b: "trace ?s2 = trace ?s1 @ b" "pulses_only b"
  proof (cases "TELEMETRY_INTERVAL_MS \<le> now_check i - lastTelemetryMs ?s1")
    case True
    then have "trace ?s2 = trace ?s1 @ [RadioSend RF_GATEWAY_ID (TelemetryJson (snapshot (tick_sensors i)))]"
      by (simp add: trace_send)
    then show ?thesis using that [of "[RadioSend RF_GATEWAY_ID (TelemetryJson (snapshot (tick_sensors i)))]"] by simp
  next
    case False
    then have "trace ?s2 = trace ?s1 @ []" by simp
    then show ?thesis using that [of "[]"] by simp
  qed
  have "trace (gate_loop i s) = trace ?s2 @ [Delay 100]"
    by (simp add: gate_loop_def Let_def trace_delay)
  then have "trace (gate_loop i s) = trace s @ (a @ b @ [Delay 100])"
    using a(1) b(1) by simp
  moreover have "pulses_only (a @ b @ [Delay 100])"
    using a(2) b(2) by (intro pulses_only_append) simp_all
  ultimately show ?thesis by blast
qed

lemma all_deasserted_update: "all_deasserted (s\<lparr>lastTelemetryMs := t\<rparr>) = all_deasserted s"
  by (simp add: all_deasserted_def)

lemma all_deasserted_gate_loop: "all_deasserted s \<Longrightarrow> all_deasserted (gate_loop i s)"
  by (simp add: gate_loop_def Let_def all_deasserted_delay all_deasserted_send
      all_deasserted_update all_deasserted_gate_receive split: option.split)

lemma gate_setup_facts:
  "all_deasserted (gate_setup ok now r s) \<and>
   (\<exists>inc. trace (gate_setup ok now r s) = trace s @ inc \<and> pulses_only inc)"
  by (simp add: gate_setup_def Let_def all_deasserted_def sendTelemetryToGateway_def
      outputs_emit outputs_delay outputs_digitalWrite trace_emit trace_delay trace_digitalWrite
      PIN_ACT_OPEN_def PIN_ACT_CLOSE_def PIN_ACT_STOP_def PIN_ACT_LATCH_def
      PIN_ACT_UNLATCH_def PIN_ACT_TIMER_def)

lemma gate_fold_facts:
  "all_deasserted s \<Longrightarrow>
   all_deasserted (fold gate_loop is s) \<and>
   (\<exists>inc. trace (fold gate_loop is s) = trace s @ inc \<and> pulses_only inc)"
proof (induction "is" arbitrary: s)
  case Nil
  then show ?case by simp
next
  case (Cons i "is")
  obtain a where a: "trace (gate_loop i s) = trace s @ a" "pulses_only a"
    using pulses_only_gate_loop by blast
  have d: "all_deasserted (gate_loop i s)"
    using Cons.prems by (rule all_deasserted_gate_loop)
  from Cons.IH [OF d] obtain b where
    b: "trace (fold gate_loop is (gate_loop i s)) = trace (gate_loop i s) @ b" "pulses_only b"
    and d': "all_deasserted (fold gate_loop is (gate_loop i s))"
    by blast
  have "pulses_only (a @ b)" using a(2) b(2) by (rule pulses_only_append)
  with a(1) b(1) d' show ?case by auto
qed

lemma gate_run_facts:
  "all_deasserted (gate_run ok now r is (power_on lv)) \<and>
   pulses_only (trace (gate_run ok now r is (power_on lv)))"
proof -
  let ?s = "gate_setup ok now r (power_on lv)"
  obtain a where a: "trace ?s = a" "pulses_only a" and d: "all_deasserted ?s"
    using gate_setup_facts [of ok now r "power_on lv"] by (auto simp: power_on_def)
  from gate_fold_facts [OF d, of "is"] obtain b where
    "trace (fold gate_loop is ?s) = trace ?s @ b" "pulses_only b"
    "all_deasserted (fold gate_loop is ?s)" by blast
  with a show ?thesis
    by (auto simp: gate_run_def intro: pulses_only_append)
qed

subsection \<open>Claims about the gate node\<close>

text \<open>
  C1. The telemetry frame that \<^verbatim>\<open>sendTelemetryToGateway\<close> sends carries a \<^verbatim>\<open>gate_state\<close>
  that is the table of the design document applied to the two limit-switch readings taken
  for that frame (a switch reads true when its pin is low): open, closed, moving, and
  unknown when both are set. The node state is no argument of the frame, so nothing
  retained enters the result.
\<close>

theorem gate_state_pure:
  "trace (sendTelemetryToGateway r s) =
     trace s @ [RadioSend RF_GATEWAY_ID (TelemetryJson (snapshot r))] \<and>
   limit_open (snapshot r) = (digital_in r PIN_LIMIT_OPEN = LOW) \<and>
   limit_closed (snapshot r) = (digital_in r PIN_LIMIT_CLOSED = LOW) \<and>
   gate_state (snapshot r) =
     gate_state_table (digital_in r PIN_LIMIT_OPEN = LOW) (digital_in r PIN_LIMIT_CLOSED = LOW)"
  by (cases "digital_in r PIN_LIMIT_OPEN = LOW"; cases "digital_in r PIN_LIMIT_CLOSED = LOW")
     (simp_all add: sendTelemetryToGateway_def trace_emit snapshot_def Let_def
        gate_state_of_def readActiveLow_def)


text \<open>
  C9. A pass of \<^verbatim>\<open>loop\<close> that has received a frame logs it, hands its text to
  \<^verbatim>\<open>applyActuatorCommand\<close> (which pulses one actuator or does nothing), then sends the text
  \<^verbatim>\<open>ACK\<close> to the gateway id, waits 50 ms and sends a fresh telemetry frame to the gateway
  id, whatever the text of the frame was.
\<close>

theorem gate_loop_ack_then_telemetry:
  assumes "rx i = Some f"
  shows "\<exists>act post. trace (gate_loop i s) = trace s @
       [SerialPrint ''Radio recv from '', SerialPrint (print_nat (fst f)), SerialPrint '': '',
        SerialPrintln (cstr (take (min (length (snd f)) 127) (snd f)))] @ act @
       [RadioSend RF_GATEWAY_ID (Text ''ACK''), Delay 50,
        RadioSend RF_GATEWAY_ID (TelemetryJson (snapshot (rx_sensors i)))] @ post \<and>
     (act = [] \<or> (\<exists>p. p \<in> set actuator_pins \<and> act = pulse p)) \<and>
     (post = [Delay 100] \<or>
      post = [RadioSend RF_GATEWAY_ID (TelemetryJson (snapshot (tick_sensors i))), Delay 100])"
proof -
  let ?s1 = "gate_receive f (rx_sensors i) s"
  obtain act where act: "trace ?s1 = trace s @
       [SerialPrint ''Radio recv from '', SerialPrint (print_nat (fst f)), SerialPrint '': '',
        SerialPrintln (cstr (take (min (length (snd f)) 127) (snd f)))] @ act @
       [RadioSend RF_GATEWAY_ID (Text ''ACK''), Delay 50,
        RadioSend RF_GATEWAY_ID (TelemetryJson (snapshot (rx_sensors i)))]"
     "act = [] \<or> (\<exists>p. p \<in> set actuator_pins \<and> act = pulse p)"
    using trace_gate_receive [of f "rx_sensors i" s] by blast
  show ?thesis
  proof (cases "TELEMETRY_INTERVAL_MS \<le> now_check i - lastTelemetryMs ?s1")
    case True
    with assms have "trace (gate_loop i s) = trace ?s1 @
        [RadioSend RF_GATEWAY_ID (TelemetryJson (snapshot (tick_sensors i))), Delay 100]"
      by (simp add: gate_loop_def Let_def trace_delay trace_send)
    with act show ?thesis
      by (intro exI [of _ act]
          exI [of _ "[RadioSend RF_GATEWAY_ID (TelemetryJson (snapshot (tick_sensors i))),
                      Delay 100]"]) simp
  next
    case False
    with assms have "trace (gate_loop i s) = trace ?s1 @ [Delay 100]"
      by (simp add: gate_loop_def Let_def trace_delay)
    with act show ?thesis
      by (intro exI [of _ act] exI [of _ "[Delay 100]"]) simp
  qed
qed

theorem gate_loop_ack_then_telemetry_witness:
  "rx sample_gate_input = Some (10, ''HELLO'') \<and>
   (\<exists>act post. trace (gate_loop sample_gate_input (power_on (\<lambda>p. LOW))) =
       trace (power_on (\<lambda>p. LOW)) @
       [SerialPrint ''Radio recv from '', SerialPrint (print_nat (fst (10, ''HELLO''))),
        SerialPrint '': '',
        SerialPrintln (cstr (take (min (length (snd (10 :: nat, ''HELLO''))) 127)
                        (snd (10 :: nat, ''HELLO''))))] @ act @
       [RadioSend RF_GATEWAY_ID (Text ''ACK''), Delay 50,
        RadioSend RF_GATEWAY_ID (TelemetryJson (snapshot (rx_sensors sample_gate_input)))] @ post \<and>
     (act = [] \<or> (\<exists>p. p \<in> set actuator_pins \<and> act = pulse p)) \<and>
     (post = [Delay 100] \<or>
      post = [RadioSend RF_GATEWAY_ID (TelemetryJson (snapshot (tick_sensors sample_gate_input))),
              Delay 100]))"
proof -
  have h: "rx sample_gate_input = Some (10, ''HELLO'')"
    by (simp add: sample_gate_input_def)
  from gate_loop_ack_then_telemetry [OF h, of "power_on (\<lambda>p. LOW)"] h show ?thesis by blast
qed

text \<open>
  C10. \<^verbatim>\<open>setup\<close> leaves the six actuator outputs low. \<^verbatim>\<open>pulsePin\<close> writes high, waits,
  and ends by writing low to the same pin. \<^verbatim>\<open>applyActuatorCommand\<close> appends at most one
  pulse, of an actuator pin. After \<^verbatim>\<open>setup\<close> and any number of passes of \<^verbatim>\<open>loop\<close>, on any
  inputs, the six outputs are low again, and in the whole trace every write of high is to
  an actuator pin inside a pulse of 200 ms that ends with the write of low to that pin.
\<close>

theorem actuators_deasserted_outside_pulses:
  "all_deasserted (gate_setup ok now r s) \<and>
   trace (pulsePin p ms s) = trace s @ [DigitalWrite p HIGH, Delay ms, DigitalWrite p LOW] \<and>
   outputs (pulsePin p ms s) = (outputs s)(p := LOW) \<and>
   (\<exists>act. trace (applyActuatorCommand cmd s) = trace s @ act \<and>
          (act = [] \<or> (\<exists>q. q \<in> set actuator_pins \<and> act = pulse q))) \<and>
   all_deasserted (gate_run ok now r is (power_on lv)) \<and>
   pulses_only (trace (gate_run ok now r is (power_on lv)))"
  using gate_setup_facts [of ok now r s] trace_pulsePin [of p ms s] outputs_pulsePin [of p ms s]
    applyActuatorCommand_act [of cmd s] gate_run_facts [of ok now r "is" lv]
  by blast

section \<open>Gateway: properties\<close>

lemma serial_print_simps:
  "serial_out (serial_print t b) = serial_out b @ t"
  "sent (serial_print t b) = sent b"
  "forwarded (serial_print t b) = forwarded b"
  "serialBuf (serial_print t b) = serialBuf b"
  by (simp_all add: serial_print_def)

lemma serial_println_simps:
  "serial_out (serial_println t b) = serial_out b @ t @ [CR, LF]"
  "sent (serial_println t b) = sent b"
  "forwarded (serial_println t b) = forwarded b"
  "serialBuf (serial_println t b) = serialBuf b"
  by (simp_all add: serial_println_def)

lemma sendWithRetry_simps:
  "fst (sendWithRetry link dest buf b) = link (length (sent b))"
  "serial_out (snd (sendWithRetry link dest buf b)) = serial_out b"
  "sent (snd (sendWithRetry link dest buf b)) = sent b @ [(dest, buf)]"
  "forwarded (snd (sendWithRetry link dest buf b)) = forwarded b"
  "serialBuf (snd (sendWithRetry link dest buf b)) = serialBuf b"
  by (simp_all add: sendWithRetry_def)

lemma cstr_TO: "cstr ''TO:'' = ''TO:''"
  by (simp add: cstr_def NUL_def)

lemma strncmp_TO_iff: "strncmp l ''TO:'' 3 = 0 \<longleftrightarrow> take 3 (cstr l) = ''TO:''"
proof -
  have "NUL \<notin> set (take 3 (cstr l))"
    using NUL_notin_cstr [of l] by (auto dest: in_set_takeD)
  moreover have "NUL \<notin> set (take 3 ''TO:'')" by (simp add: NUL_def)
  ultimately show ?thesis
    by (simp add: strncmp_def cstr_TO lexcmp_eq_0_iff del: take_Suc_Cons)
qed

lemma strchr_None_iff: "strchr p c = None \<longleftrightarrow> c \<notin> set p"
  by (induction p) auto

lemma strchr_Some_drop:
  "strchr p c = Some k \<Longrightarrow> drop (Suc k) p = tl (dropWhile (\<lambda>x. x \<noteq> c) p)"
  by (induction p arbitrary: k) (auto split: if_splits)

lemma strchr_append:
  "c \<notin> set d \<Longrightarrow> strchr (d @ c # rest) c = Some (length d)"
  by (induction d) auto

lemma trim_len_0_iff: "trim_len payload = 0 \<longleftrightarrow> set payload \<subseteq> {LF, CR}"
  by (auto simp: trim_len_def dropWhile_eq_Nil_conv)

lemma trim_len_clean:
  "LF \<notin> set payload \<Longrightarrow> CR \<notin> set payload \<Longrightarrow> trim_len payload = length payload"
  by (cases payload rule: rev_cases) (auto simp: trim_len_def)

lemma forward_not_TO:
  assumes "take 3 (cstr line) \<noteq> ''TO:''"
  shows \<open>forwardSerialToRadio link line b =
     serial_println ''"}'' (serial_print (cstr line)
       (serial_print ''{"err":"unknown_serial_cmd","line":"''
          (b\<lparr>forwarded := forwarded b @ [cstr line]\<rparr>)))\<close>
  using assms by (simp add: forwardSerialToRadio_def Let_def strncmp_TO_iff cstr_idem)

lemma forward_no_colon:
  assumes "take 3 (cstr line) = ''TO:''" "CHR '':'' \<notin> set (drop 3 (cstr line))"
  shows \<open>forwardSerialToRadio link line b =
     serial_println ''{"err":"bad_format"}'' (b\<lparr>forwarded := forwarded b @ [cstr line]\<rparr>)\<close>
proof -
  from assms(2) have "strchr (drop 3 (cstr line)) (CHR '':'') = None"
    by (simp add: strchr_None_iff)
  with assms(1) show ?thesis
    by (simp add: forwardSerialToRadio_def Let_def strncmp_TO_iff cstr_idem)
qed

lemma forward_empty_payload:
  assumes "take 3 (cstr line) = ''TO:''" "CHR '':'' \<in> set (drop 3 (cstr line))"
    "set (tl (dropWhile (\<lambda>c. c \<noteq> CHR '':'') (drop 3 (cstr line)))) \<subseteq> {LF, CR}"
  shows \<open>forwardSerialToRadio link line b =
     serial_println ''{"err":"empty_payload"}'' (b\<lparr>forwarded := forwarded b @ [cstr line]\<rparr>)\<close>
proof -
  from assms(2) obtain k where k: "strchr (drop 3 (cstr line)) (CHR '':'') = Some k"
    using strchr_None_iff [of "drop 3 (cstr line)" "CHR '':''"] by (cases "strchr (drop 3 (cstr line)) (CHR '':'')") auto
  from strchr_Some_drop [OF k] assms(3)
  have "trim_len (drop (k + 1) (drop 3 (cstr line))) = 0"
    by (simp only: trim_len_0_iff Suc_eq_plus1 [symmetric])
  with assms(1) k show ?thesis
    by (simp add: forwardSerialToRadio_def Let_def strncmp_TO_iff cstr_idem del: drop_drop)
qed

lemma forward_valid:
  assumes "cstr line = ''TO:'' @ d @ CHR '':'' # payload" "CHR '':'' \<notin> set d"
    "payload \<noteq> []" "LF \<notin> set payload" "CR \<notin> set payload"
  shows \<open>forwardSerialToRadio link line b =
     (let dest = atoi (d @ CHR '':'' # payload);
          b1 = b\<lparr>forwarded := forwarded b @ [cstr line],
                 sent := sent b @ [(nat (dest mod 256), take 191 payload)]\<rparr>
      in if link (length (sent b))
         then b1\<lparr>serial_out := serial_out b @ ''{"sent_to":'' @ print_int dest @
                   '',"payload":"'' @ payload @ ''"}'' @ [CR, LF]\<rparr>
         else b1\<lparr>serial_out := serial_out b @ ''{"sent_error_to":'' @ print_int dest @
                   ''}'' @ [CR, LF]\<rparr>)\<close>
proof -
  have t: "take 3 (cstr line) = ''TO:''" and p: "drop 3 (cstr line) = d @ CHR '':'' # payload"
    using assms(1) by simp_all
  have k: "strchr (drop 3 (cstr line)) (CHR '':'') = Some (length d)"
    unfolding p using assms(2) by (rule strchr_append)
  have pl: "drop (length d + 1) (drop 3 (cstr line)) = payload"
    unfolding p by simp
  have tl: "trim_len payload = length payload"
    using assms(4,5) by (rule trim_len_clean)
  have ne: "length payload \<noteq> 0" using assms(3) by simp
  have tk: "take (if 192 - 1 < length payload then 192 - 1 else length payload) payload = take 191 payload"
    by simp
  show ?thesis
    unfolding forwardSerialToRadio_def Let_def cstr_idem strncmp_TO_iff t k option.case pl tl tk
    using ne
    by (simp add: p serial_println_def serial_print_def sendWithRetry_def)
qed

lemma split_lines_no_LF:
  "LF \<notin> set a \<Longrightarrow> split_lines acc (a @ t) = split_lines (rev (filter (\<lambda>c. c \<noteq> CR) a) @ acc) t"
  by (induction a arbitrary: acc) auto

lemma serial_lines_record:
  "LF \<notin> set t \<Longrightarrow> serial_lines (t @ [CR, LF]) = [filter (\<lambda>c. c \<noteq> CR) t]"
  by (simp add: serial_lines_def split_lines_no_LF LF_def CR_def)

lemma split_lines_append:
  "split_lines acc (a @ LF # b) = split_lines acc (a @ [LF]) @ split_lines [] b"
  by (induction a arbitrary: acc) simp_all

lemma isdigit_char_of: "(k :: nat) < 10 \<Longrightarrow> isdigit_c (char_of (48 + k))"
  by (simp add: isdigit_c_def)

lemma print_nat_digits: "c \<in> set (print_nat n) \<Longrightarrow> isdigit_c c"
proof (induction n rule: print_nat.induct)
  case (1 n)
  show ?case
  proof (cases "n < 10")
    case True
    with "1.prems" show ?thesis by (simp add: print_nat.simps [of n] isdigit_char_of)
  next
    case False
    with "1.prems" have "c \<in> set (print_nat (n div 10)) \<or> c = char_of (48 + n mod 10)"
      by (auto simp: print_nat.simps [of n])
    then show ?thesis
      using "1.IH" False by (auto simp: isdigit_char_of)
  qed
qed

lemma print_int_chars: "c \<in> set (print_int i) \<Longrightarrow> isdigit_c c \<or> c = CHR ''-''"
  by (auto simp: print_int_def dest: print_nat_digits split: if_splits)

lemma print_int_clean:
  "LF \<notin> set (print_int i)" "CR \<notin> set (print_int i)" "quote \<notin> set (print_int i)"
  "bslash \<notin> set (print_int i)"
  by (auto dest!: print_int_chars simp: isdigit_c_def LF_def CR_def quote_def bslash_def)

lemma fold_emit_escaped:
  "serial_out (fold emit_escaped p b) = serial_out b @ escaped p \<and>
   sent (fold emit_escaped p b) = sent b \<and>
   forwarded (fold emit_escaped p b) = forwarded b \<and>
   serialBuf (fold emit_escaped p b) = serialBuf b"
  by (induction p arbitrary: b) (simp_all add: emit_escaped_def serial_print_simps)

lemma unescaped_escaped: "unescaped (escaped p) = p"
proof (induction p)
  case Nil
  then show ?case by simp
next
  case (Cons c cs)
  show ?case
  proof (cases "c = quote \<or> c = bslash")
    case True
    with Cons show ?thesis by simp
  next
    case False
    with Cons show ?thesis by (cases "escaped cs") auto
  qed
qed

lemma bridge_receive_out:
  \<open>serial_out (bridge_receive max_len (sender, rssi_v, data) b) =
     serial_out b @ ''{"src":'' @ print_int (int sender) @ '',"rssi":'' @ print_int rssi_v @
       '',"payload":"'' @ escaped (take max_len data) @ ''"}'' @ [CR, LF]\<close>
  by (simp add: bridge_receive_def Let_def serial_println_simps serial_print_simps
      fold_emit_escaped min_def)

lemma bridge_receive_rest:
  "sent (bridge_receive max_len f b) = sent b"
  "forwarded (bridge_receive max_len f b) = forwarded b"
  "serialBuf (bridge_receive max_len f b) = serialBuf b"
  by (simp_all add: bridge_receive_def Let_def serial_println_simps serial_print_simps
      fold_emit_escaped)

lemma LF_escaped: "LF \<in> set (escaped p) \<longleftrightarrow> LF \<in> set p"
  by (induction p) (auto simp: LF_def bslash_def quote_def)

lemma serial_lines_clean_record:
  "LF \<notin> set t \<Longrightarrow> CR \<notin> set t \<Longrightarrow> serial_lines (t @ [CR, LF]) = [t]"
  by (auto simp: serial_lines_record filter_id_conv)

lemma filter_CR_print_int: "filter (\<lambda>c. c \<noteq> CR) (print_int i) = print_int i"
  using print_int_clean(2) [of i] by (auto simp: filter_id_conv)

lemma serial_lines_frame:
  assumes "LF \<notin> set p"
  shows \<open>serial_lines (''{"src":'' @ print_int i @ '',"rssi":'' @ print_int j @
       '',"payload":"'' @ escaped p @ ''"}'' @ [CR, LF]) =
    [''{"src":'' @ print_int i @ '',"rssi":'' @ print_int j @
       '',"payload":"'' @ filter (\<lambda>c. c \<noteq> CR) (escaped p) @ ''"}'']\<close>
proof -
  have \<open>LF \<notin> set (''{"src":'' @ print_int i @ '',"rssi":'' @ print_int j @
       '',"payload":"'' @ escaped p @ ''"}'')\<close>
    using assms print_int_clean(1) [of i] print_int_clean(1) [of j]
    by (simp add: LF_escaped) (simp add: LF_def)
  from serial_lines_record [OF this] show ?thesis
    by (simp add: filter_CR_print_int [unfolded CR_def] CR_def)
qed

lemma serial_byte_CR: "serial_byte link CR b = b"
  by (simp add: serial_byte_def)

lemma serial_byte_plain:
  "c \<noteq> CR \<Longrightarrow> c \<noteq> LF \<Longrightarrow>
   serial_byte link c b =
     b\<lparr>serialBuf := (if length (serialBuf b) < 511 then serialBuf b @ [c] else [])\<rparr>"
  by (simp add: serial_byte_def SERIAL_BUF_LEN_def)

lemma serial_byte_LF:
  "serial_byte link LF b =
     (if serialBuf b = [] then b else forwardSerialToRadio link (serialBuf b) b)\<lparr>serialBuf := []\<rparr>"
  by (simp add: serial_byte_def Let_def LF_def CR_def)

lemma fold_serial_byte_filter:
  "fold (serial_byte link) l b = fold (serial_byte link) (filter (\<lambda>c. c \<noteq> CR) l) b"
  by (induction l arbitrary: b) (simp_all add: serial_byte_CR)

lemma div_512_step:
  "(n::nat) mod 512 < 511 \<Longrightarrow> Suc n div 512 = n div 512"
  "(n::nat) mod 512 = 511 \<Longrightarrow> Suc n div 512 = Suc (n div 512)"
  by (simp_all add: div_Suc mod_Suc)

lemma div_512_full: "(n::nat) mod 512 = 511 \<Longrightarrow> Suc n = 512 * Suc (n div 512)"
  using mult_div_mod_eq [of 512 n] by simp

lemma drop_tail_Nil_iff:
  "drop (length t - length t mod 512) t = [] \<longleftrightarrow> length t mod 512 = 0"
  using mod_less_eq_dividend [of "length t" 512] by (auto simp: drop_eq_Nil)

lemma fold_serial_byte_plain:
  assumes "CR \<notin> set l" "LF \<notin> set l" "length (serialBuf b) < 512"
  shows "fold (serial_byte link) l b =
     b\<lparr>serialBuf := drop (512 * ((length (serialBuf b) + length l) div 512)) (serialBuf b @ l)\<rparr>"
  using assms(1,2)
proof (induction l rule: rev_induct)
  case Nil
  with assms(3) show ?case by simp
next
  case (snoc c l)
  let ?n = "length (serialBuf b) + length l"
  let ?k = "?n div 512"
  let ?buf = "drop (512 * ?k) (serialBuf b @ l)"
  from snoc have IH: "fold (serial_byte link) l b = b\<lparr>serialBuf := ?buf\<rparr>"
    and c: "c \<noteq> CR" "c \<noteq> LF" by auto
  have len: "length ?buf = ?n mod 512"
  proof -
    have "length ?buf = ?n - 512 * ?k" by (simp only: length_drop length_append)
    also have "\<dots> = ?n mod 512" by (simp add: minus_mult_div_eq_mod)
    finally show ?thesis .
  qed
  have le: "512 * ?k \<le> length (serialBuf b @ l)" by simp
  have step: "fold (serial_byte link) (l @ [c]) b =
      b\<lparr>serialBuf := (if ?n mod 512 < 511 then ?buf @ [c] else [])\<rparr>"
  proof -
    have r1: "\<And>x. serialBuf (b\<lparr>serialBuf := x\<rparr>) = x" by simp
    have r2: "\<And>x y. b\<lparr>serialBuf := x, serialBuf := y\<rparr> = b\<lparr>serialBuf := y\<rparr>" by simp
    show ?thesis
      unfolding fold_append comp_def fold_simps IH serial_byte_plain [OF c] r1 r2 len
      by (rule refl)
  qed
  show ?case
  proof (cases "?n mod 512 < 511")
    case True
    from div_512_step(1) [OF True]
    have k: "(length (serialBuf b) + length (l @ [c])) div 512 = ?k"
      by simp
    have "drop (512 * ?k) (serialBuf b @ l @ [c]) = ?buf @ [c]"
      using le by simp
    then show ?thesis
      unfolding step k using True by (simp only: if_True append_assoc)
  next
    case False
    then have m: "?n mod 512 = 511" by (simp add: le_antisym)
    from div_512_step(2) [OF m]
    have k: "(length (serialBuf b) + length (l @ [c])) div 512 = Suc ?k"
      by simp
    from div_512_full [OF m]
    have "length (serialBuf b @ l @ [c]) = 512 * Suc ?k"
      by simp
    then have "drop (512 * Suc ?k) (serialBuf b @ l @ [c]) = []"
      by (simp only: drop_all order_refl)
    then show ?thesis
      unfolding step k using False by (simp only: if_False append_assoc)
  qed
qed

lemma forwarded_forward:
  "forwarded (forwardSerialToRadio link buf b) = forwarded b @ [cstr buf]"
  by (simp add: forwardSerialToRadio_def Let_def serial_println_simps serial_print_simps
      sendWithRetry_simps split: option.split)

lemma fold_line:
  assumes "LF \<notin> set l" "serialBuf b = []"
  shows "forwarded (fold (serial_byte link) (l @ [LF]) b) = forwarded b @
       (let t = filter (\<lambda>c. c \<noteq> CR) l
        in if length t mod 512 = 0 then [] else [cstr (drop (length t - length t mod 512) t)])"
    and "serialBuf (fold (serial_byte link) (l @ [LF]) b) = []"
proof -
  let ?t = "filter (\<lambda>c. c \<noteq> CR) l"
  have t: "CR \<notin> set ?t" "LF \<notin> set ?t" using assms(1) by auto
  have "fold (serial_byte link) l b = fold (serial_byte link) ?t b"
    by (rule fold_serial_byte_filter)
  also have "\<dots> = b\<lparr>serialBuf := drop (512 * (length ?t div 512)) ?t\<rparr>"
    using fold_serial_byte_plain [OF t, of b link] assms(2) by simp
  finally have f: "fold (serial_byte link) l b = b\<lparr>serialBuf := drop (512 * (length ?t div 512)) ?t\<rparr>" .
  have d: "512 * (length ?t div 512) = length ?t - length ?t mod 512"
    by (simp add: minus_mod_eq_mult_div)
  have e: "drop (length ?t - length ?t mod 512) ?t = [] \<longleftrightarrow> length ?t mod 512 = 0"
    by (rule drop_tail_Nil_iff)
  show "forwarded (fold (serial_byte link) (l @ [LF]) b) = forwarded b @
       (let t = ?t
        in if length t mod 512 = 0 then [] else [cstr (drop (length t - length t mod 512) t)])"
    using e by (simp add: f d serial_byte_LF forwarded_forward Let_def)
  show "serialBuf (fold (serial_byte link) (l @ [LF]) b) = []"
    by (simp add: f serial_byte_LF)
qed

lemma oversized_line_facts:
  "LF \<notin> set oversized_line" "filter (\<lambda>c. c \<noteq> CR) oversized_line = oversized_line"
  "length oversized_line = 522" "drop 512 oversized_line = ''TO:20:OPEN''"
  by (simp_all add: oversized_line_def LF_def CR_def)

lemma quiet_Nil: "quiet []"
  by (simp add: quiet_def serial_lines_def)

lemma quiet_append: "quiet a \<Longrightarrow> quiet b \<Longrightarrow> quiet (a @ b)"
proof (cases "a = []")
  case True
  assume "quiet a" "quiet b"
  with True show ?thesis by simp
next
  case False
  assume a: "quiet a" and b: "quiet b"
  from a False obtain a' where a': "a = a' @ [LF]"
    by (metis quiet_def append_butlast_last_id)
  have "serial_lines (a @ b) = serial_lines a @ serial_lines b"
    unfolding a' serial_lines_def using split_lines_append [of "[]" a' b] by simp
  moreover have "a @ b = [] \<or> last (a @ b) = LF"
    using a b False by (cases "b = []") (auto simp: quiet_def)
  ultimately show ?thesis using a b by (simp add: quiet_def)
qed

lemma quiet_record:
  "LF \<notin> set t \<Longrightarrow> filter (\<lambda>c. c \<noteq> CR) t \<noteq> marker \<Longrightarrow> quiet (t @ [CR, LF])"
  by (simp add: quiet_def serial_lines_record)

lemma take3_marker: \<open>take 3 marker = ''{"g''\<close>
  by (simp add: marker_def)

lemma quiet_record_prefix:
  assumes "LF \<notin> set t" "take 3 t = [c1, c2, c3]" "[c1, c2, c3] \<noteq> take 3 marker"
    "c1 \<noteq> CR" "c2 \<noteq> CR" "c3 \<noteq> CR"
  shows "quiet (t @ [CR, LF])"
proof -
  from assms(2) obtain r where t: "t = c1 # c2 # c3 # r"
    by (cases t; simp; cases "tl t"; simp; cases "tl (tl t)"; simp)
  have "take 3 (filter (\<lambda>c. c \<noteq> CR) t) = [c1, c2, c3]"
    using assms(4-6) by (simp add: t)
  with assms(3) have "filter (\<lambda>c. c \<noteq> CR) t \<noteq> marker" by auto
  with assms(1) show ?thesis by (rule quiet_record)
qed

lemma set_cstr: "set (cstr buf) \<subseteq> set buf"
  by (auto simp: cstr_def dest: set_takeWhileD)

lemma forward_quiet:
  assumes "LF \<notin> set buf"
  shows "\<exists>inc. serial_out (forwardSerialToRadio link buf b) = serial_out b @ inc \<and> quiet inc"
proof -
  let ?line = "cstr buf"
  let ?b = "b\<lparr>forwarded := forwarded b @ [?line]\<rparr>"
  let ?p = "drop 3 ?line"
  have l: "LF \<notin> set ?line" using assms set_cstr [of buf] by auto
  have q: "\<exists>inc. serial_out b @ t @ [CR, LF] = serial_out b @ inc \<and> quiet inc"
    if "LF \<notin> set t" "take 3 t = [c1, c2, c3]" "[c1, c2, c3] \<noteq> take 3 marker"
      "c1 \<noteq> CR" "c2 \<noteq> CR" "c3 \<noteq> CR" for t c1 c2 c3
    using quiet_record_prefix [OF that] by blast
  show ?thesis
  proof (cases "take 3 ?line = ''TO:''")
    case False
    have \<open>serial_out (forwardSerialToRadio link buf b) = serial_out b @
        (''{"err":"unknown_serial_cmd","line":"'' @ ?line @ ''"}'') @ [CR, LF]\<close>
      using False by (simp add: forward_not_TO serial_println_simps serial_print_simps)
    moreover have \<open>LF \<notin> set (''{"err":"unknown_serial_cmd","line":"'' @ ?line @ ''"}'')\<close>
      using l by (simp add: LF_def)
    ultimately show ?thesis
      using q [of \<open>''{"err":"unknown_serial_cmd","line":"'' @ ?line @ ''"}''\<close>
          \<open>CHR ''{''\<close> \<open>CHR ''"''\<close> \<open>CHR ''e''\<close>]
      by (simp add: take3_marker CR_def)
  next
    case t: True
    show ?thesis
    proof (cases "strchr ?p (CHR '':'')")
      case None
      then have \<open>serial_out (forwardSerialToRadio link buf b) = serial_out b @
          ''{"err":"bad_format"}'' @ [CR, LF]\<close>
        using t by (simp add: forward_no_colon strchr_None_iff serial_println_simps)
      then show ?thesis
        using q [of \<open>''{"err":"bad_format"}''\<close> \<open>CHR ''{''\<close> \<open>CHR ''"''\<close> \<open>CHR ''e''\<close>]
        by (simp add: take3_marker CR_def LF_def)
    next
      case (Some k)
      let ?payload = "drop (k + 1) ?p"
      have pl: "LF \<notin> set ?payload"
        using l by (auto dest!: in_set_dropD)
      show ?thesis
      proof (cases "trim_len ?payload = 0")
        case True
        then have \<open>serial_out (forwardSerialToRadio link buf b) = serial_out b @
            ''{"err":"empty_payload"}'' @ [CR, LF]\<close>
          using t Some
          by (simp add: forwardSerialToRadio_def Let_def strncmp_TO_iff cstr_idem
              serial_println_simps del: drop_drop)
        then show ?thesis
          using q [of \<open>''{"err":"empty_payload"}''\<close> \<open>CHR ''{''\<close> \<open>CHR ''"''\<close> \<open>CHR ''e''\<close>]
          by (simp add: take3_marker CR_def LF_def)
      next
        case False
        let ?dest = "atoi ?p"
        have out: \<open>serial_out (forwardSerialToRadio link buf b) = serial_out b @
            (if link (length (sent b))
             then ''{"sent_to":'' @ print_int ?dest @ '',"payload":"'' @ ?payload @ ''"}''
             else ''{"sent_error_to":'' @ print_int ?dest @ ''}'') @ [CR, LF]\<close>
          using t Some False
          by (simp add: forwardSerialToRadio_def Let_def strncmp_TO_iff cstr_idem
              serial_println_simps serial_print_simps sendWithRetry_simps del: drop_drop)
        have c: \<open>LF \<notin> set (''{"sent_to":'' @ print_int ?dest @ '',"payload":"'' @ ?payload @ ''"}'')\<close>
          \<open>LF \<notin> set (''{"sent_error_to":'' @ print_int ?dest @ ''}'')\<close>
          using pl print_int_clean(1) [of ?dest] by (simp_all add: LF_def del: drop_drop)
        show ?thesis
        proof (cases "link (length (sent b))")
          case True
          with out c(1) show ?thesis
            using q [of \<open>''{"sent_to":'' @ print_int ?dest @ '',"payload":"'' @ ?payload @ ''"}''\<close>
                \<open>CHR ''{''\<close> \<open>CHR ''"''\<close> \<open>CHR ''s''\<close>]
            by (simp add: take3_marker CR_def del: drop_drop)
        next
          case False
          with out c(2) show ?thesis
            using q [of \<open>''{"sent_error_to":'' @ print_int ?dest @ ''}''\<close>
                \<open>CHR ''{''\<close> \<open>CHR ''"''\<close> \<open>CHR ''s''\<close>]
            by (simp add: take3_marker CR_def del: drop_drop)
        qed
      qed
    qed
  qed
qed

lemma marker_counts: "count_list marker quote = 4" "count_list marker bslash = 0"
  by (simp_all add: marker_def quote_def bslash_def)

lemma unlike_marker_neq: "unlike_marker l \<Longrightarrow> l \<noteq> marker"
  using take3_marker marker_counts by (auto simp: unlike_marker_def)

lemma unlike_marker_Nil: "unlike_marker []"
  by (simp add: unlike_marker_def)

lemma take3_length: "take 3 l = [a, b, c] \<Longrightarrow> 3 \<le> length l"
proof -
  assume h: "take 3 l = [a, b, c]"
  have "length (take 3 l) = 3" by (simp add: h)
  then show ?thesis by simp
qed

lemma unlike_marker_snoc:
  "unlike_marker l \<Longrightarrow> c \<noteq> quote \<Longrightarrow> unlike_marker (l @ [c])"
  by (auto simp: unlike_marker_def dest: take3_length)

lemma unlike_marker_escaped:
  "unlike_marker l \<Longrightarrow> unlike_marker (l @ [bslash, c])"
  by (auto simp: unlike_marker_def dest: take3_length)

lemma unlike_marker_closing:
  assumes "unlike_marker l"
  shows "l @ [quote, CHR ''}''] \<noteq> marker"
proof
  assume e: "l @ [quote, CHR ''}''] = marker"
  have "butlast (butlast (l @ [quote, CHR ''}''])) = l"
    by (simp add: butlast_append)
  with e have l: \<open>l = ''{"gateway":"apertus_ready''\<close>
    by (simp add: marker_def)
  with assms show False
    by (simp add: unlike_marker_def quote_def bslash_def)
qed

lemma escaped_lines_unlike:
  "unlike_marker l \<Longrightarrow>
   marker \<notin> set (split_lines (rev l) (escaped p @ [quote, CHR ''}'', CR, LF]))"
proof (induction p arbitrary: l)
  case Nil
  have "split_lines (rev l) [quote, CHR ''}'', CR, LF] = [l @ [quote, CHR ''}'']]"
    by (simp add: quote_def LF_def CR_def)
  with unlike_marker_closing [OF Nil] show ?case by simp
next
  case (Cons c p)
  show ?case
  proof (cases "c = quote \<or> c = bslash")
    case True
    have "split_lines (rev l) (escaped (c # p) @ [quote, CHR ''}'', CR, LF]) =
        split_lines (rev (l @ [bslash, c])) (escaped p @ [quote, CHR ''}'', CR, LF])"
      using True by (auto simp: quote_def bslash_def LF_def CR_def)
    with Cons.IH [OF unlike_marker_escaped [OF Cons.prems]] show ?thesis by simp
  next
    case False
    show ?thesis
    proof (cases "c = LF")
      case True
      have "split_lines (rev l) (escaped (c # p) @ [quote, CHR ''}'', CR, LF]) =
          l # split_lines (rev []) (escaped p @ [quote, CHR ''}'', CR, LF])"
        using True False by simp
      with Cons.IH [OF unlike_marker_Nil] unlike_marker_neq [OF Cons.prems] show ?thesis
        by auto
    next
      case nl: False
      show ?thesis
      proof (cases "c = CR")
        case True
        have "split_lines (rev l) (escaped (c # p) @ [quote, CHR ''}'', CR, LF]) =
            split_lines (rev l) (escaped p @ [quote, CHR ''}'', CR, LF])"
          using True False nl by simp
        with Cons.IH [OF Cons.prems] show ?thesis by simp
      next
        case ncr: False
        have "split_lines (rev l) (escaped (c # p) @ [quote, CHR ''}'', CR, LF]) =
            split_lines (rev (l @ [c])) (escaped p @ [quote, CHR ''}'', CR, LF])"
          using False nl ncr by simp
        with Cons.IH [OF unlike_marker_snoc [OF Cons.prems]] False show ?thesis by simp
      qed
    qed
  qed
qed

lemma receive_quiet:
  "\<exists>inc. serial_out (bridge_receive max_len f b) = serial_out b @ inc \<and> quiet inc"
proof -
  obtain sender rssi_v data where f: "f = (sender, rssi_v, data)" by (cases f)
  let ?A = \<open>''{"src":'' @ print_int (int sender) @ '',"rssi":'' @ print_int rssi_v @ '',"payload":"''\<close>
  let ?E = "escaped (take max_len data) @ [quote, CHR ''}'', CR, LF]"
  have out: "serial_out (bridge_receive max_len f b) = serial_out b @ ?A @ ?E"
    unfolding f by (simp add: bridge_receive_out quote_def)
  have A: "LF \<notin> set ?A"
    using print_int_clean(1) [of "int sender"] print_int_clean(1) [of rssi_v]
    by (simp add: LF_def)
  have fA: \<open>take 3 (filter (\<lambda>c. c \<noteq> CR) ?A) = ''{"s''\<close>
    by (simp add: CR_def)
  have "serial_lines (?A @ ?E) = split_lines (rev (filter (\<lambda>c. c \<noteq> CR) ?A)) ?E"
    unfolding serial_lines_def using split_lines_no_LF [OF A, of "[]" ?E] by simp
  moreover have "unlike_marker (filter (\<lambda>c. c \<noteq> CR) ?A)"
    using fA by (simp only: unlike_marker_def simp_thms)
  ultimately have "marker \<notin> set (serial_lines (?A @ ?E))"
    using escaped_lines_unlike [of "filter (\<lambda>c. c \<noteq> CR) ?A" "take max_len data"] by simp
  then have "quiet (?A @ ?E)"
    by (simp add: quiet_def)
  with out show ?thesis by blast
qed

lemma serial_byte_quiet:
  assumes "LF \<notin> set (serialBuf b)"
  shows "(\<exists>inc. serial_out (serial_byte link c b) = serial_out b @ inc \<and> quiet inc) \<and>
     LF \<notin> set (serialBuf (serial_byte link c b))"
proof (cases "c = CR")
  case True
  then have "serial_out (serial_byte link c b) = serial_out b @ []"
    by (simp add: serial_byte_CR)
  with True assms quiet_Nil show ?thesis by (auto simp: serial_byte_CR)
next
  case ncr: False
  show ?thesis
  proof (cases "c = LF")
    case True
    show ?thesis
    proof (cases "serialBuf b = []")
      case e: True
      then have "serial_out (serial_byte link c b) = serial_out b @ []"
        using True by (simp add: serial_byte_LF)
      with True quiet_Nil show ?thesis by (auto simp: serial_byte_LF)
    next
      case False
      with forward_quiet [OF assms, of link b] True show ?thesis
        by (simp add: serial_byte_LF)
    qed
  next
    case False
    have "serial_out (serial_byte link c b) = serial_out b @ []"
      by (simp add: serial_byte_plain [OF ncr False])
    with assms False quiet_Nil show ?thesis
      by (auto simp: serial_byte_plain [OF ncr False])
  qed
qed

lemma fold_serial_byte_quiet:
  "LF \<notin> set (serialBuf b) \<Longrightarrow>
   (\<exists>inc. serial_out (fold (serial_byte link) l b) = serial_out b @ inc \<and> quiet inc) \<and>
   LF \<notin> set (serialBuf (fold (serial_byte link) l b))"
proof (induction l arbitrary: b)
  case Nil
  have "serial_out b = serial_out b @ []" by simp
  with Nil quiet_Nil show ?case by auto
next
  case (Cons c l)
  from serial_byte_quiet [OF Cons.prems, of link c] obtain a where
    a: "serial_out (serial_byte link c b) = serial_out b @ a" "quiet a"
    and n: "LF \<notin> set (serialBuf (serial_byte link c b))" by blast
  from Cons.IH [OF n] obtain d where
    d: "serial_out (fold (serial_byte link) l (serial_byte link c b)) =
        serial_out (serial_byte link c b) @ d" "quiet d"
    and n': "LF \<notin> set (serialBuf (fold (serial_byte link) l (serial_byte link c b)))" by blast
  have "serial_out (fold (serial_byte link) (c # l) b) = serial_out b @ (a @ d)"
    using a(1) d(1) by simp
  moreover have "quiet (a @ d)" using a(2) d(2) by (rule quiet_append)
  ultimately show ?case using n' by auto
qed

lemma bridge_loop_quiet:
  assumes "LF \<notin> set (serialBuf b)"
  shows "(\<exists>inc. serial_out (bridge_loop max_len link i b) = serial_out b @ inc \<and> quiet inc) \<and>
     LF \<notin> set (serialBuf (bridge_loop max_len link i b))"
proof -
  let ?b1 = "case frame i of None \<Rightarrow> b | Some f \<Rightarrow> bridge_receive max_len f b"
  obtain a where a: "serial_out ?b1 = serial_out b @ a" "quiet a"
  proof (cases "frame i")
    case None
    then have "serial_out ?b1 = serial_out b @ []" by simp
    with quiet_Nil that show ?thesis by blast
  next
    case (Some f)
    with receive_quiet [of max_len f b] that show ?thesis by auto
  qed
  have n: "LF \<notin> set (serialBuf ?b1)"
    using assms by (simp add: bridge_receive_rest split: option.split)
  from fold_serial_byte_quiet [OF n, of link "serial_in i"] obtain d where
    d: "serial_out (fold (serial_byte link) (serial_in i) ?b1) = serial_out ?b1 @ d" "quiet d"
    and n': "LF \<notin> set (serialBuf (fold (serial_byte link) (serial_in i) ?b1))" by blast
  have "serial_out (bridge_loop max_len link i b) = serial_out b @ (a @ d)"
    using a(1) d(1) by (simp add: bridge_loop_def Let_def)
  moreover have "quiet (a @ d)" using a(2) d(2) by (rule quiet_append)
  ultimately show ?thesis using n' by (auto simp: bridge_loop_def Let_def)
qed

lemma fold_bridge_loop_quiet:
  "LF \<notin> set (serialBuf b) \<Longrightarrow>
   \<exists>inc. serial_out (fold (bridge_loop max_len link) is b) = serial_out b @ inc \<and> quiet inc"
proof (induction "is" arbitrary: b)
  case Nil
  have "serial_out b = serial_out b @ []" by simp
  with quiet_Nil show ?case by auto
next
  case (Cons i "is")
  from bridge_loop_quiet [OF Cons.prems, of max_len link i] obtain a where
    a: "serial_out (bridge_loop max_len link i b) = serial_out b @ a" "quiet a"
    and n: "LF \<notin> set (serialBuf (bridge_loop max_len link i b))" by blast
  from Cons.IH [OF n] obtain d where
    d: "serial_out (fold (bridge_loop max_len link) is (bridge_loop max_len link i b)) =
        serial_out (bridge_loop max_len link i b) @ d" "quiet d" by blast
  have "serial_out (fold (bridge_loop max_len link) (i # is) b) = serial_out b @ (a @ d)"
    using a(1) d(1) by simp
  moreover have "quiet (a @ d)" using a(2) d(2) by (rule quiet_append)
  ultimately show ?case by blast
qed

lemma bridge_setup_out:
  "serial_out (bridge_setup ok b) = serial_out b @
     (if ok then ''Apertus Gateway RFM69 initialized'' else ''RFM69 init failed'') @
     [CR, LF] @ marker @ [CR, LF]"
  "sent (bridge_setup ok b) = sent b"
  "serialBuf (bridge_setup ok b) = serialBuf b"
  by (simp_all add: bridge_setup_def Let_def serial_println_simps)

lemma marker_clean: "LF \<notin> set marker" "CR \<notin> set marker"
  by (simp_all add: marker_def LF_def CR_def)

lemma setup_lines:
  "serial_lines ((if ok then ''Apertus Gateway RFM69 initialized'' else ''RFM69 init failed'') @
     [CR, LF] @ marker @ [CR, LF]) =
   [if ok then ''Apertus Gateway RFM69 initialized'' else ''RFM69 init failed'', marker]"
proof -
  let ?m = "if ok then ''Apertus Gateway RFM69 initialized'' else ''RFM69 init failed''"
  have m: "LF \<notin> set ?m" "CR \<notin> set ?m" by (simp_all add: LF_def CR_def)
  have "serial_lines (?m @ [CR, LF] @ marker @ [CR, LF]) =
      serial_lines (?m @ [CR, LF]) @ serial_lines (marker @ [CR, LF])"
    unfolding serial_lines_def using split_lines_append [of "[]" "?m @ [CR]" "marker @ [CR, LF]"]
    by simp
  then show ?thesis
    using serial_lines_clean_record [OF m] serial_lines_clean_record [OF marker_clean]
    by simp
qed

lemma marker_once:
  "count_list (serial_lines (serial_out (bridge_run max_len link ok is))) marker = 1"
proof -
  let ?m = "if ok then ''Apertus Gateway RFM69 initialized'' else ''RFM69 init failed''"
  let ?S = "?m @ [CR, LF] @ marker @ [CR, LF]"
  let ?b = "bridge_setup ok bridge_init"
  have S: "serial_out ?b = ?S" and n: "LF \<notin> set (serialBuf ?b)"
    by (simp_all add: bridge_setup_out bridge_init_def)
  from fold_bridge_loop_quiet [OF n, of max_len link "is"] obtain inc where
    inc: "serial_out (bridge_run max_len link ok is) = ?S @ inc" "quiet inc"
    unfolding bridge_run_def S by blast
  have "serial_lines (?S @ inc) = serial_lines ?S @ serial_lines inc"
    unfolding serial_lines_def
    using split_lines_append [of "[]" "?m @ [CR, LF] @ marker @ [CR]" inc] by simp
  moreover have "?m \<noteq> marker" by (simp add: marker_def)
  moreover have "count_list (serial_lines inc) marker = 0"
    using inc(2) by (simp add: quiet_def)
  ultimately show ?thesis
    unfolding inc(1) setup_lines by simp
qed

lemma forward_malformed:
  assumes "take 3 (cstr line) \<noteq> ''TO:'' \<or> CHR '':'' \<notin> set (drop 3 (cstr line)) \<or>
     set (tl (dropWhile (\<lambda>c. c \<noteq> CHR '':'') (drop 3 (cstr line)))) \<subseteq> {LF, CR}"
  shows \<open>sent (forwardSerialToRadio link line b) = sent b \<and>
     serial_out (forwardSerialToRadio link line b) = serial_out b @
       (if take 3 (cstr line) \<noteq> ''TO:''
        then ''{"err":"unknown_serial_cmd","line":"'' @ cstr line @ ''"}''
        else if CHR '':'' \<notin> set (drop 3 (cstr line)) then ''{"err":"bad_format"}''
        else ''{"err":"empty_payload"}'') @ [CR, LF]\<close>
proof (cases "take 3 (cstr line) = ''TO:''")
  case False
  then show ?thesis
    by (simp add: forward_not_TO serial_println_simps serial_print_simps)
next
  case t: True
  show ?thesis
  proof (cases "CHR '':'' \<in> set (drop 3 (cstr line))")
    case False
    with t show ?thesis
      by (simp add: forward_no_colon serial_println_simps)
  next
    case True
    with t assms have "set (tl (dropWhile (\<lambda>c. c \<noteq> CHR '':'') (drop 3 (cstr line)))) \<subseteq> {LF, CR}"
      by blast
    with t True show ?thesis
      by (simp add: forward_empty_payload serial_println_simps)
  qed
qed

lemma forward_valid_event:
  assumes "cstr line = ''TO:'' @ d @ CHR '':'' # payload" "CHR '':'' \<notin> set d"
    "payload \<noteq> []" "LF \<notin> set payload" "CR \<notin> set payload"
  shows \<open>sent (forwardSerialToRadio link line b) =
       sent b @ [(nat (atoi (d @ CHR '':'' # payload) mod 256), take 191 payload)] \<and>
     serial_out (forwardSerialToRadio link line b) = serial_out b @
       (if link (length (sent b))
        then ''{"sent_to":'' @ print_int (atoi (d @ CHR '':'' # payload)) @
             '',"payload":"'' @ payload @ ''"}''
        else ''{"sent_error_to":'' @ print_int (atoi (d @ CHR '':'' # payload)) @ ''}'') @
       [CR, LF] \<and>
     serial_lines
       ((if link (length (sent b))
         then ''{"sent_to":'' @ print_int (atoi (d @ CHR '':'' # payload)) @
              '',"payload":"'' @ payload @ ''"}''
         else ''{"sent_error_to":'' @ print_int (atoi (d @ CHR '':'' # payload)) @ ''}'') @
        [CR, LF]) =
     [if link (length (sent b))
      then ''{"sent_to":'' @ print_int (atoi (d @ CHR '':'' # payload)) @
           '',"payload":"'' @ payload @ ''"}''
      else ''{"sent_error_to":'' @ print_int (atoi (d @ CHR '':'' # payload)) @ ''}'']\<close>
proof -
  let ?dest = "atoi (d @ CHR '':'' # payload)"
  have a: \<open>LF \<notin> set (''{"sent_to":'' @ print_int ?dest @ '',"payload":"'' @ payload @ ''"}'')\<close>
    \<open>CR \<notin> set (''{"sent_to":'' @ print_int ?dest @ '',"payload":"'' @ payload @ ''"}'')\<close>
    using assms(4,5) print_int_clean(1,2) [of ?dest] by (simp_all add: LF_def CR_def)
  have e: \<open>LF \<notin> set (''{"sent_error_to":'' @ print_int ?dest @ ''}'')\<close>
    \<open>CR \<notin> set (''{"sent_error_to":'' @ print_int ?dest @ ''}'')\<close>
    using print_int_clean(1,2) [of ?dest] by (simp_all add: LF_def CR_def)
  show ?thesis
  proof (cases "link (length (sent b))")
    case True
    from serial_lines_clean_record [OF a] True show ?thesis
      by (simp add: forward_valid [OF assms] Let_def)
  next
    case False
    from serial_lines_clean_record [OF e] False show ?thesis
      by (simp add: forward_valid [OF assms] Let_def)
  qed
qed

lemma full_line_facts:
  "LF \<notin> set full_line" "filter (\<lambda>c. c \<noteq> CR) full_line = full_line"
  "length full_line = 512"
  by (simp_all add: full_line_def LF_def CR_def)

lemma bridge_loop_eq:
  "bridge_loop max_len link i b =
     fold (serial_byte link) (serial_in i)
       (case frame i of None \<Rightarrow> b | Some f \<Rightarrow> bridge_receive max_len f b)"
  by (simp add: bridge_loop_def Let_def)

lemma fold_line_state:
  assumes "LF \<notin> set l" "length (serialBuf b) < 512"
  shows "fold (serial_byte link) (l @ [LF]) b =
     (let t = serialBuf b @ filter (\<lambda>c. c \<noteq> CR) l;
          T = drop (512 * (length t div 512)) t
      in (if T = [] then b\<lparr>serialBuf := T\<rparr>
          else forwardSerialToRadio link T (b\<lparr>serialBuf := T\<rparr>))\<lparr>serialBuf := []\<rparr>)"
proof -
  let ?t = "filter (\<lambda>c. c \<noteq> CR) l"
  define T where "T = drop (512 * (length (serialBuf b @ ?t) div 512)) (serialBuf b @ ?t)"
  have t: "CR \<notin> set ?t" "LF \<notin> set ?t" using assms(1) by auto
  have "fold (serial_byte link) l b = fold (serial_byte link) ?t b"
    by (rule fold_serial_byte_filter)
  also have "\<dots> = b\<lparr>serialBuf := T\<rparr>"
    using fold_serial_byte_plain [OF t assms(2), of link] by (simp only: T_def length_append)
  finally have f: "fold (serial_byte link) l b = b\<lparr>serialBuf := T\<rparr>" .
  have "fold (serial_byte link) (l @ [LF]) b = serial_byte link LF (b\<lparr>serialBuf := T\<rparr>)"
    by (simp add: f)
  also have "\<dots> = (if T = [] then b\<lparr>serialBuf := T\<rparr>
      else forwardSerialToRadio link T (b\<lparr>serialBuf := T\<rparr>))\<lparr>serialBuf := []\<rparr>"
    by (simp add: serial_byte_LF)
  finally show ?thesis by (simp only: T_def Let_def)
qed

lemma fold_short_line:
  assumes "LF \<notin> set l" "length (serialBuf b @ filter (\<lambda>c. c \<noteq> CR) l) < 512"
    "serialBuf b @ filter (\<lambda>c. c \<noteq> CR) l \<noteq> []"
  shows "fold (serial_byte link) (l @ [LF]) b =
     (forwardSerialToRadio link (serialBuf b @ filter (\<lambda>c. c \<noteq> CR) l)
        (b\<lparr>serialBuf := serialBuf b @ filter (\<lambda>c. c \<noteq> CR) l\<rparr>))\<lparr>serialBuf := []\<rparr>"
proof -
  define t where "t = serialBuf b @ filter (\<lambda>c. c \<noteq> CR) l"
  have b: "length (serialBuf b) < 512" using assms(2) by simp
  have d: "drop (512 * (length t div 512)) t = t" using assms(2) by (simp add: t_def)
  have ne: "t \<noteq> []" unfolding t_def by (rule assms(3))
  show ?thesis
    unfolding fold_line_state [OF assms(1) b] t_def [symmetric] Let_def d
    using ne by simp
qed

lemma fold_line_from_empty:
  assumes "LF \<notin> set l" "serialBuf b = []" "filter (\<lambda>c. c \<noteq> CR) l = t"
    "drop (512 * (length t div 512)) t = T"
  shows "fold (serial_byte link) (l @ [LF]) b =
     (if T = [] then b\<lparr>serialBuf := T\<rparr>
      else forwardSerialToRadio link T (b\<lparr>serialBuf := T\<rparr>))\<lparr>serialBuf := []\<rparr>"
proof -
  have b: "length (serialBuf b) < 512" by (simp add: assms(2))
  have e: "serialBuf b @ filter (\<lambda>c. c \<noteq> CR) l = t" by (simp add: assms(2,3))
  show ?thesis
    unfolding fold_line_state [OF assms(1) b] e Let_def assms(4) ..
qed

lemma forward_fields_serialBuf:
  "sent (forwardSerialToRadio link buf (b\<lparr>serialBuf := x\<rparr>)) = sent (forwardSerialToRadio link buf b)"
  "serial_out (forwardSerialToRadio link buf (b\<lparr>serialBuf := x\<rparr>)) =
     serial_out (forwardSerialToRadio link buf b)"
  by (simp_all add: forwardSerialToRadio_def Let_def serial_println_simps serial_print_simps
      sendWithRetry_simps split: option.split)

text \<open>The bytes of a pass after a given point are handled from the state reached at that point.\<close>

lemma bridge_loop_append:
  assumes "serial_in i = pre @ post"
  shows "bridge_loop max_len link i b =
     fold (serial_byte link) post (bridge_loop max_len link (i\<lparr>serial_in := pre\<rparr>) b)"
  by (simp add: bridge_loop_eq assms)

lemma bridge_loop_short_line:
  assumes "serial_in i = pre @ rest @ [LF]" "LF \<notin> set rest"
    "b0 = bridge_loop max_len link (i\<lparr>serial_in := pre\<rparr>) b"
    "line = serialBuf b0 @ filter (\<lambda>c. c \<noteq> CR) rest" "line \<noteq> []" "length line < 512"
  shows "sent (bridge_loop max_len link i b) = sent (forwardSerialToRadio link line b0)"
    "serial_out (bridge_loop max_len link i b) = serial_out (forwardSerialToRadio link line b0)"
    "serialBuf (bridge_loop max_len link i b) = []"
proof -
  have e: "bridge_loop max_len link i b =
      (forwardSerialToRadio link line (b0\<lparr>serialBuf := line\<rparr>))\<lparr>serialBuf := []\<rparr>"
    unfolding bridge_loop_append [OF assms(1)] assms(3) [symmetric]
    using fold_short_line [of rest b0 link] assms(2,5,6) unfolding assms(4) by simp
  show "sent (bridge_loop max_len link i b) = sent (forwardSerialToRadio link line b0)"
    "serial_out (bridge_loop max_len link i b) = serial_out (forwardSerialToRadio link line b0)"
    "serialBuf (bridge_loop max_len link i b) = []"
    by (simp_all add: e forward_fields_serialBuf)
qed

subsection \<open>Claims about the gateway\<close>

text \<open>
  C4 as stated fails at the loop in two ways. A line with nothing in it (a newline that
  finds the buffer empty) lacks the \<^verbatim>\<open>TO:\<close> prefix, but the guard \<^verbatim>\<open>serialPos > 0\<close> skips it:
  no event is written. And a line of 512 bytes or more is cut where the buffer is emptied:
  the 522-byte line below does not begin with \<^verbatim>\<open>TO:\<close>, yet its last ten bytes are taken for
  a command, node 20 is sent \<^verbatim>\<open>OPEN\<close> by radio, and no error event is written.
\<close>

theorem malformed_serial_line_counterexample:
  \<open>serial_out (bridge_loop 60 (\<lambda>n. True) \<lparr>frame = None, serial_in = [LF]\<rparr> bridge_init) = [] \<and>
   take 3 oversized_line \<noteq> ''TO:'' \<and>
   sent (bridge_loop 60 (\<lambda>n. True) \<lparr>frame = None, serial_in = oversized_line @ [LF]\<rparr>
          bridge_init) = [(20, ''OPEN'')] \<and>
   serial_out (bridge_loop 60 (\<lambda>n. True) \<lparr>frame = None, serial_in = oversized_line @ [LF]\<rparr>
          bridge_init) = ''{"sent_to":20,"payload":"OPEN"}'' @ [CR, LF]\<close>
proof -
  have e: "bridge_loop 60 (\<lambda>n. True) \<lparr>frame = None, serial_in = [LF]\<rparr> bridge_init = bridge_init"
    by (simp add: bridge_loop_eq serial_byte_LF bridge_init_def)
  have s: "serialBuf bridge_init = []" by (simp add: bridge_init_def)
  have T: "drop (512 * (length oversized_line div 512)) oversized_line = ''TO:20:OPEN''"
    by (simp add: oversized_line_facts)
  have o: "bridge_loop 60 (\<lambda>n. True) \<lparr>frame = None, serial_in = oversized_line @ [LF]\<rparr> bridge_init =
      (forwardSerialToRadio (\<lambda>n. True) ''TO:20:OPEN''
         (bridge_init\<lparr>serialBuf := ''TO:20:OPEN''\<rparr>))\<lparr>serialBuf := []\<rparr>"
    unfolding bridge_loop_eq
    using fold_line_from_empty [OF oversized_line_facts(1) s oversized_line_facts(2) T, of "\<lambda>n. True"]
    by simp
  have c: "cstr ''TO:20:OPEN'' = ''TO:'' @ ''20'' @ CHR '':'' # ''OPEN''"
    by (simp add: cstr_def NUL_def)
  have h: "CHR '':'' \<notin> set ''20''" "''OPEN'' \<noteq> []" "LF \<notin> set ''OPEN''" "CR \<notin> set ''OPEN''"
    by (simp_all add: LF_def CR_def)
  have v: "atoi ''20:OPEN'' = 20" by code_simp
  have p: "print_int 20 = ''20''" by code_simp
  have f: \<open>sent (forwardSerialToRadio (\<lambda>n. True) ''TO:20:OPEN'' bridge_init) = [(20, ''OPEN'')]\<close>
    \<open>serial_out (forwardSerialToRadio (\<lambda>n. True) ''TO:20:OPEN'' bridge_init) =
       ''{"sent_to":20,"payload":"OPEN"}'' @ [CR, LF]\<close>
    using forward_valid_event [OF c h, of "\<lambda>n. True" bridge_init]
    by (simp_all add: v p bridge_init_def)
  have "take 3 oversized_line = replicate 3 (CHR ''A'')"
    by (simp add: oversized_line_def)
  then have p3: "take 3 oversized_line \<noteq> ''TO:''"
    by (simp add: numeral_3_eq_3)
  have "serial_out (bridge_loop 60 (\<lambda>n. True) \<lparr>frame = None, serial_in = [LF]\<rparr> bridge_init) = []"
    unfolding e by (simp add: bridge_init_def)
  with p3 f show ?thesis by (simp add: o forward_fields_serialBuf)
qed

text \<open>
  C4, as amended. Take a pass of the gateway loop whose serial input is \<open>pre @ rest @ [LF]\<close>
  with no newline in \<open>rest\<close>, and let \<open>b0\<close> be the state once the frame of the pass (if any)
  and the bytes \<open>pre\<close> have been handled. The complete line is what the buffer of \<open>b0\<close> holds
  (the bytes of the line that came before \<open>rest\<close>, in this pass or an earlier one) followed
  by \<open>rest\<close> without its carriage returns. If that line is not empty, is shorter than 512
  bytes, and is malformed (its text does not begin with \<^verbatim>\<open>TO:\<close>, or has no colon after the
  destination, or has nothing but line ends after that colon), then at the newline the
  gateway writes exactly one error record, ended by \<^verbatim>\<open>println\<close>, after what \<open>b0\<close> had written:
  \<^verbatim>\<open>unknown_serial_cmd\<close> with the line, \<^verbatim>\<open>bad_format\<close>, or \<^verbatim>\<open>empty_payload\<close>; the list of radio
  sends is that of \<open>b0\<close>, so nothing is sent for the line; and the buffer is empty for the
  next line.
\<close>

theorem malformed_serial_line_rejected:
  assumes "serial_in i = pre @ rest @ [LF]" "LF \<notin> set rest"
    "b0 = bridge_loop max_len link (i\<lparr>serial_in := pre\<rparr>) b"
    "line = serialBuf b0 @ filter (\<lambda>c. c \<noteq> CR) rest" "line \<noteq> []" "length line < 512"
    "take 3 (cstr line) \<noteq> ''TO:'' \<or> CHR '':'' \<notin> set (drop 3 (cstr line)) \<or>
     set (tl (dropWhile (\<lambda>c. c \<noteq> CHR '':'') (drop 3 (cstr line)))) \<subseteq> {LF, CR}"
  shows \<open>sent (bridge_loop max_len link i b) = sent b0 \<and>
     serial_out (bridge_loop max_len link i b) =
       serial_out b0 @
       (if take 3 (cstr line) \<noteq> ''TO:''
        then ''{"err":"unknown_serial_cmd","line":"'' @ cstr line @ ''"}''
        else if CHR '':'' \<notin> set (drop 3 (cstr line)) then ''{"err":"bad_format"}''
        else ''{"err":"empty_payload"}'') @ [CR, LF] \<and>
     serialBuf (bridge_loop max_len link i b) = []\<close>
  unfolding bridge_loop_short_line [OF assms(1-6)]
  using forward_malformed [OF assms(7), of link b0]
  by (simp only: simp_thms)

theorem malformed_serial_line_rejected_witness:
  \<open>(sent (bridge_loop 60 (\<lambda>n. True) \<lparr>frame = None, serial_in = (''OPEN'' @ [CR]) @ [LF]\<rparr>
           bridge_init) = [] \<and>
    serial_out (bridge_loop 60 (\<lambda>n. True) \<lparr>frame = None, serial_in = (''OPEN'' @ [CR]) @ [LF]\<rparr>
           bridge_init) = ''{"err":"unknown_serial_cmd","line":"OPEN"}'' @ [CR, LF]) \<and>
   (sent (bridge_loop 60 (\<lambda>n. True) \<lparr>frame = None, serial_in = ''TO:20'' @ [LF]\<rparr>
           bridge_init) = [] \<and>
    serial_out (bridge_loop 60 (\<lambda>n. True) \<lparr>frame = None, serial_in = ''TO:20'' @ [LF]\<rparr>
           bridge_init) = ''{"err":"bad_format"}'' @ [CR, LF]) \<and>
   (sent (bridge_loop 60 (\<lambda>n. True) \<lparr>frame = None, serial_in = ''TO:20:'' @ [LF]\<rparr>
           bridge_init) = [] \<and>
    serial_out (bridge_loop 60 (\<lambda>n. True) \<lparr>frame = None, serial_in = ''TO:20:'' @ [LF]\<rparr>
           bridge_init) = ''{"err":"empty_payload"}'' @ [CR, LF])\<close>
proof -
  have c: "cstr ''OPEN'' = ''OPEN''" "cstr ''TO:20'' = ''TO:20''" "cstr ''TO:20:'' = ''TO:20:''"
    by (simp_all add: cstr_def NUL_def)
  have s: "serialBuf bridge_init = []" "sent bridge_init = []" "serial_out bridge_init = []"
    by (simp_all add: bridge_init_def)
  have 1: "serial_in \<lparr>frame = None, serial_in = (''OPEN'' @ [CR]) @ [LF]\<rparr> =
      [] @ (''OPEN'' @ [CR]) @ [LF]"
    "LF \<notin> set (''OPEN'' @ [CR])"
    "bridge_init = bridge_loop 60 (\<lambda>n. True)
       (\<lparr>frame = None, serial_in = (''OPEN'' @ [CR]) @ [LF]\<rparr>\<lparr>serial_in := []\<rparr>) bridge_init"
    "''OPEN'' = serialBuf bridge_init @ filter (\<lambda>c. c \<noteq> CR) (''OPEN'' @ [CR])"
    "''OPEN'' \<noteq> []" "length ''OPEN'' < 512"
    "take 3 (cstr ''OPEN'') \<noteq> ''TO:'' \<or> CHR '':'' \<notin> set (drop 3 (cstr ''OPEN'')) \<or>
     set (tl (dropWhile (\<lambda>c. c \<noteq> CHR '':'') (drop 3 (cstr ''OPEN'')))) \<subseteq> {LF, CR}"
    by (simp_all add: c s LF_def CR_def bridge_loop_eq)
  have 2: "serial_in \<lparr>frame = None, serial_in = ''TO:20'' @ [LF]\<rparr> = [] @ ''TO:20'' @ [LF]"
    "LF \<notin> set ''TO:20''"
    "bridge_init = bridge_loop 60 (\<lambda>n. True)
       (\<lparr>frame = None, serial_in = ''TO:20'' @ [LF]\<rparr>\<lparr>serial_in := []\<rparr>) bridge_init"
    "''TO:20'' = serialBuf bridge_init @ filter (\<lambda>c. c \<noteq> CR) ''TO:20''"
    "''TO:20'' \<noteq> []" "length ''TO:20'' < 512"
    "take 3 (cstr ''TO:20'') \<noteq> ''TO:'' \<or> CHR '':'' \<notin> set (drop 3 (cstr ''TO:20'')) \<or>
     set (tl (dropWhile (\<lambda>c. c \<noteq> CHR '':'') (drop 3 (cstr ''TO:20'')))) \<subseteq> {LF, CR}"
    by (simp_all add: c s LF_def CR_def bridge_loop_eq)
  have 3: "serial_in \<lparr>frame = None, serial_in = ''TO:20:'' @ [LF]\<rparr> = [] @ ''TO:20:'' @ [LF]"
    "LF \<notin> set ''TO:20:''"
    "bridge_init = bridge_loop 60 (\<lambda>n. True)
       (\<lparr>frame = None, serial_in = ''TO:20:'' @ [LF]\<rparr>\<lparr>serial_in := []\<rparr>) bridge_init"
    "''TO:20:'' = serialBuf bridge_init @ filter (\<lambda>c. c \<noteq> CR) ''TO:20:''"
    "''TO:20:'' \<noteq> []" "length ''TO:20:'' < 512"
    "take 3 (cstr ''TO:20:'') \<noteq> ''TO:'' \<or> CHR '':'' \<notin> set (drop 3 (cstr ''TO:20:'')) \<or>
     set (tl (dropWhile (\<lambda>c. c \<noteq> CHR '':'') (drop 3 (cstr ''TO:20:'')))) \<subseteq> {LF, CR}"
    by (simp_all add: c s LF_def CR_def bridge_loop_eq)
  have f: "frame \<lparr>frame = None, serial_in = x\<rparr> = None" for x :: string by simp
  have t: "take 3 ''OPEN'' \<noteq> ''TO:''" "take 3 ''TO:20'' = ''TO:''" "take 3 ''TO:20:'' = ''TO:''"
    "CHR '':'' \<notin> set (drop 3 ''TO:20'')" "CHR '':'' \<in> set (drop 3 ''TO:20:'')"
    by simp_all
  from malformed_serial_line_rejected [OF 1]
  have a: \<open>sent (bridge_loop 60 (\<lambda>n. True) \<lparr>frame = None, serial_in = (''OPEN'' @ [CR]) @ [LF]\<rparr>
           bridge_init) = [] \<and>
    serial_out (bridge_loop 60 (\<lambda>n. True) \<lparr>frame = None, serial_in = (''OPEN'' @ [CR]) @ [LF]\<rparr>
           bridge_init) = ''{"err":"unknown_serial_cmd","line":"OPEN"}'' @ [CR, LF]\<close>
    unfolding c f option.case s using t(1) by simp
  from malformed_serial_line_rejected [OF 2]
  have b: \<open>sent (bridge_loop 60 (\<lambda>n. True) \<lparr>frame = None, serial_in = ''TO:20'' @ [LF]\<rparr>
           bridge_init) = [] \<and>
    serial_out (bridge_loop 60 (\<lambda>n. True) \<lparr>frame = None, serial_in = ''TO:20'' @ [LF]\<rparr>
           bridge_init) = ''{"err":"bad_format"}'' @ [CR, LF]\<close>
    unfolding c f option.case s using t(2,4) by simp
  from malformed_serial_line_rejected [OF 3]
  have d: \<open>sent (bridge_loop 60 (\<lambda>n. True) \<lparr>frame = None, serial_in = ''TO:20:'' @ [LF]\<rparr>
           bridge_init) = [] \<and>
    serial_out (bridge_loop 60 (\<lambda>n. True) \<lparr>frame = None, serial_in = ''TO:20:'' @ [LF]\<rparr>
           bridge_init) = ''{"err":"empty_payload"}'' @ [CR, LF]\<close>
    unfolding c f option.case s using t(3,5) by simp
  from a b d show ?thesis by blast
qed

text \<open>
  C5 as stated fails for a command of 512 bytes or more: the 512th byte empties the buffer,
  so at the newline of the line below, which has the form \<^verbatim>\<open>TO:20:<payload>\<close> and exactly 512
  bytes, nothing is left to forward: there is no radio send and no event.
\<close>

theorem valid_serial_line_counterexample:
  "length full_line = 512 \<and> full_line = ''TO:20:'' @ replicate 506 (CHR ''B'') \<and>
   sent (bridge_loop 60 (\<lambda>n. True) \<lparr>frame = None, serial_in = full_line @ [LF]\<rparr>
          bridge_init) = [] \<and>
   serial_out (bridge_loop 60 (\<lambda>n. True) \<lparr>frame = None, serial_in = full_line @ [LF]\<rparr>
          bridge_init) = []"
proof -
  have s: "serialBuf bridge_init = []" by (simp add: bridge_init_def)
  have T: "drop (512 * (length full_line div 512)) full_line = []"
    by (simp add: full_line_facts)
  have "bridge_loop 60 (\<lambda>n. True) \<lparr>frame = None, serial_in = full_line @ [LF]\<rparr> bridge_init =
      bridge_init"
    unfolding bridge_loop_eq
    using fold_line_from_empty [OF full_line_facts(1) s full_line_facts(2) T, of "\<lambda>n. True"]
    by (simp add: bridge_init_def)
  then show ?thesis by (simp add: full_line_facts(3) full_line_def bridge_init_def)
qed

text \<open>
  C5, as amended. Take a pass of the gateway loop whose serial input is \<open>pre @ rest @ [LF]\<close>
  with no newline in \<open>rest\<close>, let \<open>b0\<close> be the state once the frame of the pass (if any) and
  the bytes \<open>pre\<close> have been handled, and let the complete line be the buffer of \<open>b0\<close>
  followed by \<open>rest\<close> without its carriage returns. If that line is shorter than 512 bytes
  and its text is \<^verbatim>\<open>TO:<dest-id>:<payload>\<close>, with no colon in the destination and a payload
  that is not empty and holds no line end, then at the newline the gateway calls
  \<^verbatim>\<open>sendWithRetry\<close> exactly once, for the destination \<^verbatim>\<open>atoi\<close> reads (as a byte) and the
  payload (its first 191 bytes), and writes exactly one serial line after what \<open>b0\<close> had
  written: a \<^verbatim>\<open>sent_to\<close> record when the send succeeds and a \<^verbatim>\<open>sent_error_to\<close> record when
  it fails. The buffer is then empty for the next line.
\<close>

theorem valid_serial_line_sent_once:
  assumes "serial_in i = pre @ rest @ [LF]" "LF \<notin> set rest"
    "b0 = bridge_loop max_len link (i\<lparr>serial_in := pre\<rparr>) b"
    "line = serialBuf b0 @ filter (\<lambda>c. c \<noteq> CR) rest" "length line < 512"
    "cstr line = ''TO:'' @ d @ CHR '':'' # payload" "CHR '':'' \<notin> set d"
    "payload \<noteq> []" "LF \<notin> set payload" "CR \<notin> set payload"
  shows \<open>sent (bridge_loop max_len link i b) =
       sent b0 @ [(nat (atoi (d @ CHR '':'' # payload) mod 256), take 191 payload)] \<and>
     serial_out (bridge_loop max_len link i b) =
       serial_out b0 @
       (if link (length (sent b0))
        then ''{"sent_to":'' @ print_int (atoi (d @ CHR '':'' # payload)) @
             '',"payload":"'' @ payload @ ''"}''
        else ''{"sent_error_to":'' @ print_int (atoi (d @ CHR '':'' # payload)) @ ''}'') @
       [CR, LF] \<and>
     serial_lines
       ((if link (length (sent b0))
         then ''{"sent_to":'' @ print_int (atoi (d @ CHR '':'' # payload)) @
              '',"payload":"'' @ payload @ ''"}''
         else ''{"sent_error_to":'' @ print_int (atoi (d @ CHR '':'' # payload)) @ ''}'') @
        [CR, LF]) =
     [if link (length (sent b0))
      then ''{"sent_to":'' @ print_int (atoi (d @ CHR '':'' # payload)) @
           '',"payload":"'' @ payload @ ''"}''
      else ''{"sent_error_to":'' @ print_int (atoi (d @ CHR '':'' # payload)) @ ''}''] \<and>
     serialBuf (bridge_loop max_len link i b) = []\<close>
proof -
  have ne: "line \<noteq> []" using assms(6) by (auto simp: cstr_def)
  show ?thesis
    unfolding bridge_loop_short_line [OF assms(1-4) ne assms(5)]
    using forward_valid_event [OF assms(6-10), of link b0]
    by (simp only: simp_thms)
qed

theorem valid_serial_line_sent_once_witness:
  \<open>sent (bridge_loop 60 (\<lambda>n. True) \<lparr>frame = None, serial_in = (''TO:20:OPEN'' @ [CR]) @ [LF]\<rparr>
          bridge_init) = [(20, ''OPEN'')] \<and>
   serial_out (bridge_loop 60 (\<lambda>n. True)
          \<lparr>frame = None, serial_in = (''TO:20:OPEN'' @ [CR]) @ [LF]\<rparr> bridge_init) =
     ''{"sent_to":20,"payload":"OPEN"}'' @ [CR, LF] \<and>
   sent (bridge_loop 60 (\<lambda>n. False) \<lparr>frame = None, serial_in = (''TO:20:OPEN'' @ [CR]) @ [LF]\<rparr>
          bridge_init) = [(20, ''OPEN'')] \<and>
   serial_out (bridge_loop 60 (\<lambda>n. False)
          \<lparr>frame = None, serial_in = (''TO:20:OPEN'' @ [CR]) @ [LF]\<rparr> bridge_init) =
     ''{"sent_error_to":20}'' @ [CR, LF]\<close>
proof -
  have h: "serial_in \<lparr>frame = None, serial_in = (''TO:20:OPEN'' @ [CR]) @ [LF]\<rparr> =
      [] @ (''TO:20:OPEN'' @ [CR]) @ [LF]"
    "LF \<notin> set (''TO:20:OPEN'' @ [CR])"
    "bridge_init = bridge_loop 60 link
       (\<lparr>frame = None, serial_in = (''TO:20:OPEN'' @ [CR]) @ [LF]\<rparr>\<lparr>serial_in := []\<rparr>) bridge_init"
    "''TO:20:OPEN'' = serialBuf bridge_init @ filter (\<lambda>c. c \<noteq> CR) (''TO:20:OPEN'' @ [CR])"
    "length ''TO:20:OPEN'' < 512"
    "cstr ''TO:20:OPEN'' = ''TO:'' @ ''20'' @ CHR '':'' # ''OPEN''"
    "CHR '':'' \<notin> set ''20''" "''OPEN'' \<noteq> []" "LF \<notin> set ''OPEN''" "CR \<notin> set ''OPEN''"
    for link
    by (simp_all add: cstr_def NUL_def LF_def CR_def bridge_init_def bridge_loop_eq)
  have v: "atoi ''20:OPEN'' = 20" by code_simp
  have p: "print_int 20 = ''20''" by code_simp
  from valid_serial_line_sent_once [OF h, of "\<lambda>n. True"]
    valid_serial_line_sent_once [OF h, of "\<lambda>n. False"]
  show ?thesis
    by (simp add: v p bridge_init_def)
qed

text \<open>
  C6 as stated fails on a payload that holds a line feed: the byte is written unchanged,
  so the frame below arrives as two serial lines, neither of them a JSON object.
\<close>

theorem radio_frame_newline_counterexample:
  \<open>serial_lines (serial_out (bridge_receive 60 (20, - 40, [LF]) bridge_init)) =
     [''{"src":20,"rssi":-40,"payload":"'', ''"}'']\<close>
proof -
  have p: "print_int 20 = ''20''" "print_int (- 40) = ''-40''"
    by code_simp+
  show ?thesis
    by (simp add: bridge_receive_out p bridge_init_def serial_lines_def LF_def CR_def
        quote_def bslash_def)
qed

text \<open>
  C6, as amended. For every received frame the gateway writes one record ended by
  \<^verbatim>\<open>println\<close>: the sender id, the signal strength, and the first \<^verbatim>\<open>RH_RF69_MAX_MESSAGE_LEN\<close>
  bytes of the payload with a backslash before every quote and backslash and every other
  byte unchanged (so the payload is recovered by removing the escapes), and it sends
  nothing by radio. The record is exactly one serial line whenever those payload bytes
  hold no line feed.
\<close>

theorem radio_frame_record:
  \<open>serial_out (bridge_receive max_len (sender, rssi_v, data) b) = serial_out b @
     ''{"src":'' @ print_int (int sender) @ '',"rssi":'' @ print_int rssi_v @
     '',"payload":"'' @ escaped (take max_len data) @ ''"}'' @ [CR, LF] \<and>
   sent (bridge_receive max_len (sender, rssi_v, data) b) = sent b \<and>
   unescaped (escaped (take max_len data)) = take max_len data \<and>
   (LF \<notin> set (take max_len data) \<longrightarrow>
    serial_lines (''{"src":'' @ print_int (int sender) @ '',"rssi":'' @ print_int rssi_v @
       '',"payload":"'' @ escaped (take max_len data) @ ''"}'' @ [CR, LF]) =
    [''{"src":'' @ print_int (int sender) @ '',"rssi":'' @ print_int rssi_v @
       '',"payload":"'' @ filter (\<lambda>c. c \<noteq> CR) (escaped (take max_len data)) @ ''"}''])\<close>
  by (intro conjI impI bridge_receive_out bridge_receive_rest unescaped_escaped
      serial_lines_frame)

theorem radio_frame_record_witness:
  \<open>LF \<notin> set (take 60 ''a"b'') \<and>
   serial_out (bridge_receive 60 (20, - 40, ''a"b'') bridge_init) = serial_out bridge_init @
     ''{"src":'' @ print_int (int 20) @ '',"rssi":'' @ print_int (- 40) @
     '',"payload":"'' @ escaped (take 60 ''a"b'') @ ''"}'' @ [CR, LF] \<and>
   unescaped (escaped (take 60 ''a"b'')) = take 60 ''a"b'' \<and>
   serial_lines (''{"src":'' @ print_int (int 20) @ '',"rssi":'' @ print_int (- 40) @
       '',"payload":"'' @ escaped (take 60 ''a"b'') @ ''"}'' @ [CR, LF]) =
    [''{"src":'' @ print_int (int 20) @ '',"rssi":'' @ print_int (- 40) @
       '',"payload":"'' @ filter (\<lambda>c. c \<noteq> CR) (escaped (take 60 ''a"b'')) @ ''"}'']\<close>
proof -
  have h: \<open>LF \<notin> set (take 60 ''a"b'')\<close> by (simp add: LF_def)
  from radio_frame_record [of 60 20 "- 40" \<open>''a"b''\<close> bridge_init] h
  show ?thesis by blast
qed

text \<open>
  C7 as stated fails for the tail of an oversized line: when the 512th byte arrives the
  buffer is emptied, but the bytes after it are buffered again, and the newline hands them
  to \<^verbatim>\<open>forwardSerialToRadio\<close>. The single input line below has 522 bytes before its
  newline; its last ten bytes are forwarded as a line.
\<close>

theorem oversized_tail_counterexample:
  "length oversized_line = 522 \<and>
   forwarded (fold (serial_byte (\<lambda>n. True)) (oversized_line @ [LF]) bridge_init) = [''TO:20:OPEN'']"
proof -
  have "serialBuf bridge_init = []" by (simp add: bridge_init_def)
  from fold_line(1) [OF oversized_line_facts(1) this, of "\<lambda>n. True"]
  show ?thesis
    by (simp add: oversized_line_facts Let_def bridge_init_def cstr_def NUL_def)
qed

text \<open>
  C7, as amended. Take one serial input line (the bytes before a newline, carriage returns
  dropped) of \<open>L\<close> bytes, read into an empty buffer. Whenever the buffer holds 511 bytes
  and a further byte arrives, those 511 bytes and that byte are discarded and buffering
  starts again with the next byte. At the newline the gateway hands to
  \<^verbatim>\<open>forwardSerialToRadio\<close> the last \<open>L mod 512\<close> bytes of the line when that number is not
  zero, nothing otherwise, and the buffer is empty again. So the first \<open>L - L mod 512\<close>
  bytes of an oversized line are never forwarded, and a line of fewer than 512 bytes is
  forwarded whole.
\<close>

theorem oversized_line_head_discarded:
  assumes "LF \<notin> set l" "serialBuf b = []"
  shows "forwarded (fold (serial_byte link) (l @ [LF]) b) = forwarded b @
       (let t = filter (\<lambda>c. c \<noteq> CR) l
        in if length t mod 512 = 0 then [] else [cstr (drop (length t - length t mod 512) t)]) \<and>
     serialBuf (fold (serial_byte link) (l @ [LF]) b) = []"
  using fold_line [OF assms, of link] by blast

theorem oversized_line_head_discarded_witness:
  "LF \<notin> set (''TO:20:OPEN'' @ [CR]) \<and> serialBuf bridge_init = [] \<and>
   forwarded (fold (serial_byte (\<lambda>n. True)) ((''TO:20:OPEN'' @ [CR]) @ [LF]) bridge_init) =
     [''TO:20:OPEN''] \<and>
   serialBuf (fold (serial_byte (\<lambda>n. True)) ((''TO:20:OPEN'' @ [CR]) @ [LF]) bridge_init) = []"
proof -
  have h: "LF \<notin> set (''TO:20:OPEN'' @ [CR])" "serialBuf bridge_init = []"
    by (simp_all add: LF_def CR_def bridge_init_def)
  have c: "cstr ''TO:20:OPEN'' = ''TO:20:OPEN''"
    by (simp add: cstr_def NUL_def)
  from oversized_line_head_discarded [OF h, of "\<lambda>n. True"] h show ?thesis
    by (simp add: Let_def CR_def c bridge_init_def)
qed

text \<open>
  C8. \<^verbatim>\<open>setup\<close> writes the line that reports the radio initialisation (one text when it
  succeeded, another when it failed) and then, on both branches, the readiness marker.
  In the whole serial output of a run, \<^verbatim>\<open>setup\<close> followed by any number of passes of
  \<^verbatim>\<open>loop\<close> on any radio frames, serial bytes and send outcomes, exactly one line is the
  readiness marker.
\<close>

theorem readiness_marker_once:
  "serial_out (bridge_setup ok b) = serial_out b @
     (if ok then ''Apertus Gateway RFM69 initialized'' else ''RFM69 init failed'') @
     [CR, LF] @ marker @ [CR, LF] \<and>
   sent (bridge_setup ok b) = sent b \<and>
   count_list (serial_lines (serial_out (bridge_run max_len link ok is))) marker = 1"
  by (intro conjI bridge_setup_out marker_once)

end
